theory Spec2Isabelle
  imports Main
begin

section \<open>Data model\<close>

text \<open>
  The interface \<open>Rate\<close> of \<open>src/index.ts\<close>, for rules whose two fields are integers.
  Nothing in the source restricts their sign. The rules as the caller writes them and as
  the limiter reads them from the request are \<open>CallerRate\<close> and \<open>ParsedRate\<close> below.
\<close>

record Rate =
  limit :: int
  interval :: int

text \<open>
  The fragment of JavaScript numbers that the limiter can compute from integer inputs:
  an integer, \<open>-Infinity\<close> (the value of \<open>Math.max()\<close> with no argument) and \<open>NaN\<close>
  (the value of \<open>n + undefined\<close>).
\<close>

datatype jsnum = Num int | NegInf | NaN

fun js_add :: "jsnum \<Rightarrow> jsnum \<Rightarrow> jsnum" where
  "js_add NaN _ = NaN"
| "js_add _ NaN = NaN"
| "js_add NegInf _ = NegInf"
| "js_add _ NegInf = NegInf"
| "js_add (Num a) (Num b) = Num (a + b)"

text \<open>\<open>x - n\<close> for an integer \<open>n\<close> (the limiter only ever subtracts \<open>now\<close>).\<close>

fun js_sub :: "jsnum \<Rightarrow> int \<Rightarrow> jsnum" where
  "js_sub (Num a) n = Num (a - n)"
| "js_sub NegInf n = NegInf"
| "js_sub NaN n = NaN"

fun js_ge :: "jsnum \<Rightarrow> jsnum \<Rightarrow> bool" where
  "js_ge (Num a) (Num b) = (a \<ge> b)"
| "js_ge (Num _) NegInf = True"
| "js_ge NegInf NegInf = True"
| "js_ge _ _ = False"

fun js_less :: "jsnum \<Rightarrow> jsnum \<Rightarrow> bool" where
  "js_less (Num a) (Num b) = (a < b)"
| "js_less NegInf (Num _) = True"
| "js_less _ _ = False"

text \<open>\<open>Math.max\<close> of two numbers: \<open>NaN\<close> if either is, \<open>-Infinity\<close> is neutral.\<close>

fun js_max :: "jsnum \<Rightarrow> jsnum \<Rightarrow> jsnum" where
  "js_max NaN _ = NaN"
| "js_max _ NaN = NaN"
| "js_max NegInf y = y"
| "js_max x NegInf = x"
| "js_max (Num a) (Num b) = Num (max a b)"

text \<open>\<open>Math.max(...xs)\<close>: the spread call, \<open>-Infinity\<close> for the empty array.\<close>

definition js_max_spread :: "jsnum list \<Rightarrow> jsnum" where
  "js_max_spread xs = foldl js_max NegInf xs"

section \<open>The two scanning helpers\<close>

text \<open>
  \<open>filterUntil\<close> (index.ts, lines 181-191): the \<open>for\<close> loop over the array with the
  accumulator \<open>values\<close>; \<open>break\<close> returns the accumulator.
\<close>

fun filterUntil_loop :: "('a \<Rightarrow> bool) \<Rightarrow> 'a list \<Rightarrow> 'a list \<Rightarrow> 'a list" where
  "filterUntil_loop predicate [] values = values"
| "filterUntil_loop predicate (item # rest) values =
     (if predicate item then filterUntil_loop predicate rest (values @ [item]) else values)"

definition filterUntil :: "'a list \<Rightarrow> ('a \<Rightarrow> bool) \<Rightarrow> 'a list" where
  "filterUntil array predicate = filterUntil_loop predicate array []"

text \<open>
  \<open>countUntil\<close> (index.ts, lines 193-208): the same loop with the state \<open>count\<close>, \<open>last\<close>;
  \<open>last\<close> starts \<open>undefined\<close>, which is \<open>None\<close> here.
\<close>

record 'a CountResult =
  count :: nat
  last_item :: "'a option"

fun countUntil_loop :: "('a \<Rightarrow> bool) \<Rightarrow> 'a list \<Rightarrow> 'a CountResult \<Rightarrow> 'a CountResult" where
  "countUntil_loop predicate [] acc = acc"
| "countUntil_loop predicate (item # rest) acc =
     (if predicate item
      then countUntil_loop predicate rest \<lparr> count = count acc + 1, last_item = Some item \<rparr>
      else acc)"

definition countUntil :: "'a list \<Rightarrow> ('a \<Rightarrow> bool) \<Rightarrow> 'a CountResult" where
  "countUntil array predicate =
     countUntil_loop predicate array \<lparr> count = 0, last_item = None \<rparr>"

section \<open>The decision of \<open>RateLimiter.slidingWindow\<close>\<close>

text \<open>\<open>Math.max(...rates.map((rate) => rate.interval))\<close>, line 31.\<close>

definition biggestInterval :: "Rate list \<Rightarrow> jsnum" where
  "biggestInterval rates = js_max_spread (map (\<lambda>rate. Num (interval rate)) rates)"

text \<open>The predicate of line 36, \<open>request + biggestInterval >= now\<close>.\<close>

definition inBiggest :: "jsnum \<Rightarrow> int \<Rightarrow> int \<Rightarrow> bool" where
  "inBiggest big now request = js_ge (js_add (Num request) big) (Num now)"

text \<open>
  Lines 32-37: the working log \<open>requests\<close>, the stored log cut at the first entry outside
  the biggest interval.
\<close>

definition workingLog :: "Rate list \<Rightarrow> int list \<Rightarrow> int \<Rightarrow> int list" where
  "workingLog rates stored now = filterUntil stored (inBiggest (biggestInterval rates) now)"

text \<open>The predicate of line 45, \<open>request + rate.interval >= now\<close>, on integers.\<close>

definition inRate :: "Rate \<Rightarrow> int \<Rightarrow> int \<Rightarrow> bool" where
  "inRate rate now request = (request + interval rate \<ge> now)"

text \<open>
  One turn of the loop of lines 42-50. \<open>retryAt\<close> is \<open>number | null\<close>: \<open>None\<close> is \<open>null\<close>.
  \<open>last!\<close> only silences the type checker: an \<open>undefined\<close> \<open>last\<close> is added as it is and
  gives \<open>NaN\<close>. \<open>retryAt ?? 0\<close> is \<open>0\<close> for \<open>null\<close>.
\<close>

definition lastNum :: "int option \<Rightarrow> jsnum" where
  "lastNum l = (case l of None \<Rightarrow> NaN | Some t \<Rightarrow> Num t)"

definition retryStep :: "int list \<Rightarrow> int \<Rightarrow> jsnum option \<Rightarrow> Rate \<Rightarrow> jsnum option" where
  "retryStep requests now retryAt rate =
     (let r = countUntil requests (inRate rate now) in
      if int (count r) \<ge> limit rate
      then Some (js_max (js_add (Num (interval rate)) (lastNum (last_item r)))
                        (case retryAt of None \<Rightarrow> Num 0 | Some v \<Rightarrow> v))
      else retryAt)"

definition retryLoop :: "Rate list \<Rightarrow> int list \<Rightarrow> int \<Rightarrow> jsnum option" where
  "retryLoop rates requests now = foldl (retryStep requests now) None rates"

text \<open>
  Lines 31-54 on a loaded log: the pair of \<open>retryAt\<close> (\<open>None\<close>: the request is allowed)
  and the log that line 56 writes back. This is the operation the specification calls
  \<open>decide\<close>.
\<close>

definition decide :: "Rate list \<Rightarrow> int list \<Rightarrow> int \<Rightarrow> jsnum option \<times> int list" where
  "decide rates stored now =
     (let requests = workingLog rates stored now;
          retryAt = retryLoop rates requests now
      in (retryAt, if retryAt = None then now # requests else requests))"

section \<open>The durable object: \<open>RateLimiter\<close>\<close>

text \<open>
  The JSON body of the limiter's answer, \<open>{status: "OK"}\<close> or
  \<open>{status: "LIMITED", retryAt}\<close>, before it is serialised.
\<close>

datatype Body = OK | LIMITED jsnum

text \<open>
  The answer of the limiter: the body and the \<open>max-age\<close> of the \<open>Cache-Control\<close> header
  (\<open>None\<close>: the header is absent). The HTTP status is 200 on both paths.
\<close>

record ActorResponse =
  body :: Body
  maxAge :: "jsnum option"

text \<open>The storage of one durable object: bucket name to stored log.\<close>

type_synonym Storage = "string \<rightharpoonup> int list"

definition bucketOf :: "string \<Rightarrow> string" where
  "bucketOf key = ''B/sliding/'' @ key"

text \<open>\<open>storage.get(bucket).then((requests) => requests ?? [])\<close>, lines 33-35.\<close>

definition loadLog :: "Storage \<Rightarrow> string \<Rightarrow> int list" where
  "loadLog storage key = (case storage (bucketOf key) of None \<Rightarrow> [] | Some requests \<Rightarrow> requests)"

text \<open>
  \<open>slidingWindow\<close>, lines 25-72: load, decide, write back (line 56, on both outcomes), answer.
\<close>

definition slidingWindow :: "Rate list \<Rightarrow> string \<Rightarrow> int \<Rightarrow> Storage \<Rightarrow> ActorResponse \<times> Storage" where
  "slidingWindow rates key now storage =
     (let result = decide rates (loadLog storage key) now;
          storage' = storage(bucketOf key \<mapsto> snd result)
      in case fst result of
           None \<Rightarrow> (\<lparr> body = OK, maxAge = None \<rparr>, storage')
         | Some retryAt \<Rightarrow>
             (\<lparr> body = LIMITED retryAt, maxAge = Some (js_sub retryAt now) \<rparr>, storage'))"

text \<open>
  The clock \<open>Date.now()\<close> is a parameter, in milliseconds. \<open>Math.floor(Date.now() / 1000)\<close>
  is used by the limiter (line 14), \<open>Math.ceil(Date.now() / 1000)\<close> by the coordinator
  (line 121).
\<close>

definition floorSeconds :: "int \<Rightarrow> int" where
  "floorSeconds ms = ms div 1000"

definition ceilSeconds :: "int \<Rightarrow> int" where
  "ceilSeconds ms = - ((- ms) div 1000)"

text \<open>
  A sequence of calls of the limiter for one key, the storage threaded through: the list of
  the call times with the body each call answered.
\<close>

fun calls :: "Rate list \<Rightarrow> string \<Rightarrow> Storage \<Rightarrow> int list \<Rightarrow> (int \<times> Body) list" where
  "calls rates key storage [] = []"
| "calls rates key storage (now # later) =
     (now, body (fst (slidingWindow rates key now storage)))
       # calls rates key (snd (slidingWindow rates key now storage)) later"

definition allowedTimes :: "Rate list \<Rightarrow> string \<Rightarrow> Storage \<Rightarrow> int list \<Rightarrow> int list" where
  "allowedTimes rates key storage nows =
     map fst (filter (\<lambda>c. snd c = OK) (calls rates key storage nows))"

section \<open>The request between coordinator and limiter\<close>

text \<open>
  The request is the URL \<open>http://rate-limiter\<close> with the parameter \<open>k\<close> and one parameter
  \<open>r\<close> per rule, in the caller's order. It is kept as the key with the list of the \<open>r\<close>
  texts (writing a parameter into the URL and reading it back gives the same text). The
  same URL is the key of the response cache.
\<close>

type_synonym Descriptor = "string \<times> string list"

text \<open>
  A number of the caller, as far as \<open>${r.limit}:${r.interval}\<close> (line 101) looks at it. The
  template prints a number with \<open>Number::toString\<close>, which, for a finite number other than
  zero, works on its sign, the digits of its shortest decimal form and the position \<open>n\<close> of
  the decimal point: \<open>NumFinite neg digits n\<close> is the number \<open>0.digits * 10^n\<close>, negated if
  \<open>neg\<close> (so 3 is \<open>NumFinite False ''3'' 1\<close>, 10 is \<open>NumFinite False ''1'' 2\<close>, 0.5 is
  \<open>NumFinite False ''5'' 0\<close> and 1e21 is \<open>NumFinite False ''1'' 22\<close>).
\<close>

datatype number = NumNaN | NumInfinity bool | NumZero | NumFinite bool string int

text \<open>The decimal digits of a natural number, for the exponent.\<close>

fun decimal :: "nat \<Rightarrow> string" where
  "decimal n =
     (if n < 10 then [''0123456789'' ! n]
      else decimal (n div 10) @ [''0123456789'' ! (n mod 10)])"

text \<open>
  \<open>Number::toString\<close> for a positive finite number: plain digits up to \<open>10^21\<close>, a decimal
  point inside or in front of the digits down to \<open>10^-6\<close>, exponent notation otherwise.
\<close>

definition finiteToString :: "string \<Rightarrow> int \<Rightarrow> string" where
  "finiteToString digits n =
     (let k = int (length digits) in
      if k \<le> n \<and> n \<le> 21 then digits @ replicate (nat (n - k)) CHR ''0''
      else if 0 < n \<and> n \<le> 21 then take (nat n) digits @ ''.'' @ drop (nat n) digits
      else if - 6 < n \<and> n \<le> 0 then ''0.'' @ replicate (nat (- n)) CHR ''0'' @ digits
      else (if k = 1 then digits else take 1 digits @ ''.'' @ drop 1 digits)
             @ ''e'' @ (if n - 1 < 0 then ''-'' else ''+'') @ decimal (nat \<bar>n - 1\<bar>))"

fun numberToString :: "number \<Rightarrow> string" where
  "numberToString NumNaN = ''NaN''"
| "numberToString NumZero = ''0''"
| "numberToString (NumInfinity neg) = (if neg then ''-Infinity'' else ''Infinity'')"
| "numberToString (NumFinite neg digits n) =
     (if neg then ''-'' @ finiteToString digits n else finiteToString digits n)"

text \<open>The interface \<open>Rate\<close> as the caller of \<open>rateLimit\<close> fills it, with the caller's numbers.\<close>

record CallerRate =
  climit :: number
  cinterval :: number

text \<open>\<open>`${r.limit}:${r.interval}`\<close>, line 101.\<close>

definition printRate :: "CallerRate \<Rightarrow> string" where
  "printRate r = numberToString (climit r) @ '':'' @ numberToString (cinterval r)"

text \<open>
  \<open>parseInt\<close> with one argument: leading white space is skipped, then a sign, then the
  prefix \<open>0x\<close> or \<open>0X\<close> (which makes the radix 16), then the longest run of digits of the
  radix is read; no digit gives \<open>NaN\<close>. A text is a list of code units below 256, and the
  integer that is read is exact, as every integer of this theory is.
\<close>

definition isWhiteSpace :: "char \<Rightarrow> bool" where
  "isWhiteSpace c =
     (c \<in> set [CHR 0x09, CHR 0x0A, CHR 0x0B, CHR 0x0C, CHR 0x0D, CHR 0x20, CHR 0xA0])"

definition stripSign :: "string \<Rightarrow> int \<times> string" where
  "stripSign s =
     (case s of
        [] \<Rightarrow> (1, [])
      | c # t \<Rightarrow> if c = CHR ''-'' then (- 1, t) else if c = CHR ''+'' then (1, t) else (1, s))"

definition stripPrefix :: "string \<Rightarrow> nat \<times> string" where
  "stripPrefix s =
     (case s of
        c # x # t \<Rightarrow>
          if c = CHR ''0'' \<and> (x = CHR ''x'' \<or> x = CHR ''X'') then (16, t) else (10, s)
      | _ \<Rightarrow> (10, s))"

definition digitValue :: "char \<Rightarrow> nat option" where
  "digitValue c =
     map_of [(CHR ''0'', 0), (CHR ''1'', 1), (CHR ''2'', 2), (CHR ''3'', 3), (CHR ''4'', 4),
             (CHR ''5'', 5), (CHR ''6'', 6), (CHR ''7'', 7), (CHR ''8'', 8), (CHR ''9'', 9),
             (CHR ''a'', 10), (CHR ''b'', 11), (CHR ''c'', 12), (CHR ''d'', 13),
             (CHR ''e'', 14), (CHR ''f'', 15),
             (CHR ''A'', 10), (CHR ''B'', 11), (CHR ''C'', 12), (CHR ''D'', 13),
             (CHR ''E'', 14), (CHR ''F'', 15)] c"

definition isDigitOf :: "nat \<Rightarrow> char \<Rightarrow> bool" where
  "isDigitOf radix c = (case digitValue c of None \<Rightarrow> False | Some d \<Rightarrow> d < radix)"

definition digitsValue :: "nat \<Rightarrow> string \<Rightarrow> nat" where
  "digitsValue radix z =
     foldl (\<lambda>acc c. acc * radix + (case digitValue c of None \<Rightarrow> 0 | Some d \<Rightarrow> d)) 0 z"

definition parseInt :: "string \<Rightarrow> jsnum" where
  "parseInt s =
     (let signed = stripSign (dropWhile isWhiteSpace s);
          prefixed = stripPrefix (snd signed);
          z = takeWhile (isDigitOf (fst prefixed)) (snd prefixed)
      in if z = [] then NaN else Num (fst signed * int (digitsValue (fst prefixed) z)))"

text \<open>\<open>s.split(sep)\<close> for a separator of one character: the pieces between the separators.\<close>

fun split :: "char \<Rightarrow> string \<Rightarrow> string list" where
  "split sep [] = [[]]"
| "split sep (c # s) =
     (if c = sep then [] # split sep s
      else (case split sep s of [] \<Rightarrow> [[c]] | piece # pieces \<Rightarrow> (c # piece) # pieces))"

text \<open>
  A rule as \<open>fetch\<close> reads it: each field is what \<open>parseInt\<close> gives, an integer or \<open>NaN\<close>. A
  text without a colon leaves \<open>interval\<close> \<open>undefined\<close>, which every use of the field turns
  into \<open>NaN\<close> (\<open>Math.max\<close>, \<open>+\<close>), so it is \<open>NaN\<close> here.
\<close>

record ParsedRate =
  plimit :: jsnum
  pinterval :: jsnum

text \<open>
  \<open>const [limit, interval] = r.split(":", 2).map((n) => parseInt(n))\<close>, lines 18-19: at most
  the first two pieces are kept.
\<close>

definition parseRate :: "string \<Rightarrow> ParsedRate" where
  "parseRate r =
     (case map parseInt (take 2 (split CHR '':'' r)) of
        [] \<Rightarrow> \<lparr> plimit = NaN, pinterval = NaN \<rparr>
      | [l] \<Rightarrow> \<lparr> plimit = l, pinterval = NaN \<rparr>
      | l # i # _ \<Rightarrow> \<lparr> plimit = l, pinterval = i \<rparr>)"

text \<open>
  \<open>slidingWindow\<close> on rules as they are read, lines 25-72 once more with a field that may be
  \<open>NaN\<close>: the comparisons and sums are those of JavaScript numbers. On rules whose fields
  are integers these definitions are the ones above (lemma \<open>slidingWindow_parsed_integer\<close>).
\<close>

definition biggestInterval_parsed :: "ParsedRate list \<Rightarrow> jsnum" where
  "biggestInterval_parsed rates = js_max_spread (map pinterval rates)"

definition workingLog_parsed :: "ParsedRate list \<Rightarrow> int list \<Rightarrow> int \<Rightarrow> int list" where
  "workingLog_parsed rates stored now =
     filterUntil stored (inBiggest (biggestInterval_parsed rates) now)"

definition inRate_parsed :: "ParsedRate \<Rightarrow> int \<Rightarrow> int \<Rightarrow> bool" where
  "inRate_parsed rate now request = js_ge (js_add (Num request) (pinterval rate)) (Num now)"

definition retryStep_parsed ::
  "int list \<Rightarrow> int \<Rightarrow> jsnum option \<Rightarrow> ParsedRate \<Rightarrow> jsnum option" where
  "retryStep_parsed requests now retryAt rate =
     (let r = countUntil requests (inRate_parsed rate now) in
      if js_ge (Num (int (count r))) (plimit rate)
      then Some (js_max (js_add (pinterval rate) (lastNum (last_item r)))
                        (case retryAt of None \<Rightarrow> Num 0 | Some v \<Rightarrow> v))
      else retryAt)"

definition retryLoop_parsed :: "ParsedRate list \<Rightarrow> int list \<Rightarrow> int \<Rightarrow> jsnum option" where
  "retryLoop_parsed rates requests now = foldl (retryStep_parsed requests now) None rates"

definition decide_parsed ::
  "ParsedRate list \<Rightarrow> int list \<Rightarrow> int \<Rightarrow> jsnum option \<times> int list" where
  "decide_parsed rates stored now =
     (let requests = workingLog_parsed rates stored now;
          retryAt = retryLoop_parsed rates requests now
      in (retryAt, if retryAt = None then now # requests else requests))"

definition slidingWindow_parsed ::
  "ParsedRate list \<Rightarrow> string \<Rightarrow> int \<Rightarrow> Storage \<Rightarrow> ActorResponse \<times> Storage" where
  "slidingWindow_parsed rates key now storage =
     (let result = decide_parsed rates (loadLog storage key) now;
          storage' = storage(bucketOf key \<mapsto> snd result)
      in case fst result of
           None \<Rightarrow> (\<lparr> body = OK, maxAge = None \<rparr>, storage')
         | Some retryAt \<Rightarrow>
             (\<lparr> body = LIMITED retryAt, maxAge = Some (js_sub retryAt now) \<rparr>, storage'))"

text \<open>A rule with integer fields, as a rule that was read.\<close>

definition parsedOf :: "Rate \<Rightarrow> ParsedRate" where
  "parsedOf rate = \<lparr> plimit = Num (limit rate), pinterval = Num (interval rate) \<rparr>"

text \<open>
  \<open>RateLimiter.fetch\<close>, lines 13-23: the time in whole seconds, the key from \<open>k\<close>, the rules
  from the \<open>r\<close> parameters.
\<close>

definition fetch :: "Descriptor \<Rightarrow> int \<Rightarrow> Storage \<Rightarrow> ActorResponse \<times> Storage" where
  "fetch url ms storage =
     slidingWindow_parsed (map parseRate (snd url)) (fst url) (floorSeconds ms) storage"

section \<open>The coordinator: \<open>rateLimit\<close>\<close>

text \<open>
  The shared response cache is a collaborator outside the repository. It is modelled as the
  specification describes it (match by request, store with a freshness lifetime): an entry
  keeps the stored response and the time of the store, and is matched while its age is
  below the \<open>max-age\<close> of the response; a response whose \<open>max-age\<close> is not a number is
  never matched.
\<close>

record CacheEntry =
  response :: ActorResponse
  storedAt :: int

type_synonym Cache = "Descriptor \<rightharpoonup> CacheEntry"

definition fresh :: "CacheEntry \<Rightarrow> int \<Rightarrow> bool" where
  "fresh e ms =
     (case maxAge (response e) of
        Some (Num age) \<Rightarrow> ms < storedAt e + age * 1000
      | _ \<Rightarrow> False)"

definition cache_match :: "Cache \<Rightarrow> Descriptor \<Rightarrow> int \<Rightarrow> ActorResponse option" where
  "cache_match cache url ms =
     (case cache url of
        None \<Rightarrow> None
      | Some e \<Rightarrow> if fresh e ms then Some (response e) else None)"

definition cache_put :: "Cache \<Rightarrow> Descriptor \<Rightarrow> ActorResponse \<Rightarrow> int \<Rightarrow> Cache" where
  "cache_put cache url resp ms = cache(url \<mapsto> \<lparr> response = resp, storedAt = ms \<rparr>)"

text \<open>
  What \<open>response.clone().json()\<close> gives the coordinator: \<open>JSON.stringify\<close> writes \<open>NaN\<close> and
  \<open>-Infinity\<close> as \<open>null\<close>, so \<open>retryAt\<close> arrives as an integer or \<open>null\<close>.
\<close>

datatype Data = DataOK | DataLIMITED "int option"

fun json :: "Body \<Rightarrow> Data" where
  "json OK = DataOK"
| "json (LIMITED (Num n)) = DataLIMITED (Some n)"
| "json (LIMITED _) = DataLIMITED None"

text \<open>\<open>data.retryAt - n\<close>: \<open>null\<close> counts as 0 in a subtraction.\<close>

definition retryAtNumber :: "int option \<Rightarrow> int" where
  "retryAtNumber r = (case r of None \<Rightarrow> 0 | Some n \<Rightarrow> n)"

text \<open>The rejection of lines 118-123: status 429 and the header \<open>Retry-After\<close>.\<close>

record Rejection =
  status :: nat
  retryAfter :: int

text \<open>
  The world of the coordinator: the storage of each durable object by name, each cache by
  name, and \<open>fetches\<close>, which counts the calls of \<open>limiter.fetch\<close> (it is not in the source;
  it makes a round trip to the limiter observable).
\<close>

record World =
  objects :: "string \<Rightarrow> Storage"
  caches :: "string \<Rightarrow> Cache"
  fetches :: nat

text \<open>
  \<open>rateLimit\<close>, lines 85-124. The URL carries the key and the printed rules. \<open>ms\<close> is
  the clock while the request is handled (cache lookup, the limiter's own \<open>Date.now()\<close>,
  cache store), \<open>msResp\<close> the clock of line 121.
  \<open>ctx.waitUntil(cache.put(url, response))\<close> is taken as done when the call returns.
  The result \<open>None\<close> is the source's \<open>null\<close>: the request is allowed.
\<close>

definition cacheNameOf :: "string option \<Rightarrow> string" where
  "cacheNameOf cacheName = (case cacheName of None \<Rightarrow> ''rate-limiter'' | Some c \<Rightarrow> c)"

definition rateLimit ::
  "World \<Rightarrow> string \<Rightarrow> string \<Rightarrow> CallerRate list \<Rightarrow> string option \<Rightarrow> int \<Rightarrow> int
     \<Rightarrow> Rejection option \<times> World" where
  "rateLimit w name key rates cacheName ms msResp =
     (let url = (key, map printRate rates);
          cname = cacheNameOf cacheName;
          cached = cache_match (caches w cname) url ms;
          answer = (case cached of
                      Some r \<Rightarrow> (r, w)
                    | None \<Rightarrow>
                        (let a = fetch url ms (objects w name)
                         in (fst a, w \<lparr> objects := (objects w)(name := snd a),
                                        fetches := fetches w + 1 \<rparr>)));
          resp = fst answer;
          w1 = snd answer
      in case json (body resp) of
           DataOK \<Rightarrow> (None, w1)
         | DataLIMITED retryAt \<Rightarrow>
             (let w2 = (if cached = None \<and> maxAge resp \<noteq> None
                        then w1 \<lparr> caches := (caches w1)(cname := cache_put (caches w1 cname) url resp ms) \<rparr>
                        else w1)
              in (Some \<lparr> status = 429, retryAfter = retryAtNumber retryAt - ceilSeconds msResp \<rparr>,
                  w2)))"

section \<open>The notions of the specification\<close>

text \<open>
  The decision as the specification words it (section 4.1, steps 4 and 5), to be compared
  with \<open>retryLoop\<close>: per rule the counted prefix, its length, its oldest entry (the
  boundary, the last entry of a newest-first log), the candidate \<open>boundary + interval\<close>, and
  the maximum candidate over the violated rules.
\<close>

definition spec_prefix :: "Rate \<Rightarrow> int list \<Rightarrow> int \<Rightarrow> int list" where
  "spec_prefix rate requests now = takeWhile (\<lambda>t. t + interval rate \<ge> now) requests"

definition spec_violated :: "Rate \<Rightarrow> int list \<Rightarrow> int \<Rightarrow> bool" where
  "spec_violated rate requests now = (int (length (spec_prefix rate requests now)) \<ge> limit rate)"

definition spec_candidate :: "Rate \<Rightarrow> int list \<Rightarrow> int \<Rightarrow> int" where
  "spec_candidate rate requests now = last (spec_prefix rate requests now) + interval rate"

definition spec_retryAt :: "Rate list \<Rightarrow> int list \<Rightarrow> int \<Rightarrow> int option" where
  "spec_retryAt rates requests now =
     (let violated = filter (\<lambda>rate. spec_violated rate requests now) rates
      in if violated = [] then None
         else Some (Max (set (map (\<lambda>rate. spec_candidate rate requests now) violated))))"

text \<open>The entries of the working log that the scan of a rule counts.\<close>

definition countedPrefix :: "Rate \<Rightarrow> int list \<Rightarrow> int \<Rightarrow> int list" where
  "countedPrefix rate requests now =
     take (count (countUntil requests (inRate rate now))) requests"

text \<open>The number of times of a list inside the closed window \<open>[a, a + len]\<close>.\<close>

definition admittedIn :: "int \<Rightarrow> int \<Rightarrow> int list \<Rightarrow> nat" where
  "admittedIn a len ts = length (filter (\<lambda>t. a \<le> t \<and> t \<le> a + len) ts)"

text \<open>Newest first, equal times allowed; and strictly newest first.\<close>

definition newestFirst :: "int list \<Rightarrow> bool" where
  "newestFirst log = sorted_wrt (\<lambda>x y. x \<ge> y) log"

definition strictlyNewestFirst :: "int list \<Rightarrow> bool" where
  "strictlyNewestFirst log = sorted_wrt (\<lambda>x y. x > y) log"

section \<open>The scans as prefixes\<close>

lemma filterUntil_loop_takeWhile:
  "filterUntil_loop p xs acc = acc @ takeWhile p xs"
  by (induction xs arbitrary: acc) simp_all

lemma filterUntil_takeWhile: "filterUntil xs p = takeWhile p xs"
  by (simp add: filterUntil_def filterUntil_loop_takeWhile)

lemma countUntil_loop_count:
  "count (countUntil_loop p xs acc) = count acc + length (takeWhile p xs)"
  by (induction xs arbitrary: acc) simp_all

lemma countUntil_loop_last:
  "last_item (countUntil_loop p xs acc) =
     (if takeWhile p xs = [] then last_item acc else Some (last (takeWhile p xs)))"
  by (induction xs arbitrary: acc) simp_all

lemma countUntil_count: "count (countUntil xs p) = length (takeWhile p xs)"
  by (simp add: countUntil_def countUntil_loop_count)

lemma countUntil_last:
  "last_item (countUntil xs p) =
     (if takeWhile p xs = [] then None else Some (last (takeWhile p xs)))"
  by (simp add: countUntil_def countUntil_loop_last)

section \<open>The biggest interval and the working log\<close>

lemma foldl_js_max_Num:
  "foldl js_max (Num a) (map (\<lambda>rate. Num (interval rate)) rs) = Num (fold max (map interval rs) a)"
  by (induction rs arbitrary: a) (simp_all add: max.commute)

lemma biggestInterval_Nil: "biggestInterval [] = NegInf"
  by (simp add: biggestInterval_def js_max_spread_def)

lemma biggestInterval_Max:
  "rates \<noteq> [] \<Longrightarrow> biggestInterval rates = Num (Max (interval ` set rates))"
proof (cases rates)
  case Nil
  then show "rates \<noteq> [] \<Longrightarrow> ?thesis" by simp
next
  case (Cons r rs)
  then show ?thesis
    using foldl_js_max_Num [of "interval r" rs] Max.set_eq_fold [of "interval r" "map interval rs"]
    by (simp add: biggestInterval_def js_max_spread_def)
qed

lemma inBiggest_Num: "inBiggest (Num b) now t = (t + b \<ge> now)"
  by (simp add: inBiggest_def)

lemma inBiggest_NegInf: "inBiggest NegInf now t = False"
  by (simp add: inBiggest_def)

lemma takeWhile_newestFirst:
  "newestFirst xs \<Longrightarrow> takeWhile (\<lambda>t. t + c \<ge> now) xs = filter (\<lambda>t. t + c \<ge> (now::int)) xs"
  unfolding newestFirst_def
proof (induction xs)
  case Nil
  then show ?case by simp
next
  case (Cons x xs)
  show ?case
  proof (cases "x + c \<ge> now")
    case True
    then show ?thesis using Cons by simp
  next
    case False
    then have "\<forall>y\<in>set xs. \<not> y + c \<ge> now" using Cons.prems by auto
    then have "filter (\<lambda>t. t + c \<ge> now) xs = []" by (simp add: filter_empty_conv)
    then show ?thesis using False by simp
  qed
qed

lemma inRate_fun: "inRate rate now = (\<lambda>t. t + interval rate \<ge> now)"
  by (rule ext) (simp add: inRate_def)

lemma retryStep_None:
  "retryStep requests now acc rate = None \<longleftrightarrow> acc = None \<and> \<not> spec_violated rate requests now"
  by (simp add: retryStep_def spec_violated_def spec_prefix_def countUntil_count inRate_fun Let_def)

lemma foldl_retryStep_None:
  "foldl (retryStep requests now) acc rates = None
     \<longleftrightarrow> acc = None \<and> (\<forall>rate\<in>set rates. \<not> spec_violated rate requests now)"
  by (induction rates arbitrary: acc) (auto simp: retryStep_None)

lemma retryLoop_None:
  "retryLoop rates requests now = None \<longleftrightarrow> (\<forall>rate\<in>set rates. \<not> spec_violated rate requests now)"
  by (simp add: retryLoop_def foldl_retryStep_None)

lemma workingLog_takeWhile:
  "workingLog rates stored now = takeWhile (inBiggest (biggestInterval rates) now) stored"
  by (simp add: workingLog_def filterUntil_takeWhile)

lemma countedPrefix_takeWhile:
  "countedPrefix rate requests now = takeWhile (inRate rate now) requests"
proof -
  have "take (length (takeWhile p xs)) xs = takeWhile p xs" for p and xs :: "int list"
    by (induction xs) simp_all
  then show ?thesis by (simp add: countedPrefix_def countUntil_count)
qed

lemma newestFirst_takeWhile: "newestFirst xs \<Longrightarrow> newestFirst (takeWhile p xs)"
  unfolding newestFirst_def by (induction xs) (auto dest: set_takeWhileD)

lemma takeWhile_all_before:
  "newestFirst xs \<Longrightarrow> t0 \<in> set xs \<Longrightarrow> (\<And>t. t0 \<le> t \<Longrightarrow> p t) \<Longrightarrow> t0 \<in> set (takeWhile p xs)"
  unfolding newestFirst_def
proof (induction xs)
  case Nil
  then show ?case by simp
next
  case (Cons x xs)
  then have "t0 \<le> x" by auto
  then have "p x" using Cons.prems(3) by simp
  then show ?case using Cons by auto
qed

section \<open>The answer and the storage of a call\<close>

lemma slidingWindow_body:
  "body (fst (slidingWindow rates key now storage)) = OK
     \<longleftrightarrow> fst (decide rates (loadLog storage key) now) = None"
  by (simp add: slidingWindow_def Let_def split: option.splits)

lemma slidingWindow_storage:
  "snd (slidingWindow rates key now storage)
     = storage(bucketOf key \<mapsto> snd (decide rates (loadLog storage key) now))"
  by (simp add: slidingWindow_def Let_def split: option.splits)

lemma decide_fst: "fst (decide rates stored now) = retryLoop rates (workingLog rates stored now) now"
  by (simp add: decide_def Let_def)

lemma decide_snd:
  "snd (decide rates stored now) =
     (if retryLoop rates (workingLog rates stored now) now = None
      then now # workingLog rates stored now else workingLog rates stored now)"
  by (simp add: decide_def Let_def)

lemma strictlyNewestFirst_takeWhile: "strictlyNewestFirst xs \<Longrightarrow> strictlyNewestFirst (takeWhile p xs)"
  unfolding strictlyNewestFirst_def by (induction xs) (auto dest: set_takeWhileD)

lemmas eval_decide = decide_fst decide_snd workingLog_takeWhile
      biggestInterval_Max inBiggest_Num retryLoop_def retryStep_def countUntil_count
      countUntil_last inRate_fun lastNum_def

lemma aged_out_workingLog:
  assumes "\<forall>t\<in>set stored. js_less (js_add (Num t) (biggestInterval rates)) (Num now)"
  shows "workingLog rates stored now = []"
proof (cases stored)
  case Nil
  then show ?thesis by (simp add: workingLog_takeWhile)
next
  case (Cons t rest)
  then have "js_less (js_add (Num t) (biggestInterval rates)) (Num now)" using assms by simp
  then have "\<not> inBiggest (biggestInterval rates) now t"
    by (cases "biggestInterval rates") (simp_all add: inBiggest_def)
  then show ?thesis using Cons by (simp add: workingLog_takeWhile)
qed

lemma decide_workingLog:
  "workingLog rates stored now = workingLog rates stored' now
     \<Longrightarrow> decide rates stored now = decide rates stored' now"
  by (simp add: decide_def)

lemma retryLoop_empty:
  "\<forall>rate\<in>set rates. 1 \<le> limit rate \<Longrightarrow> retryLoop rates [] now = None"
  by (simp add: retryLoop_None spec_violated_def spec_prefix_def) force

lemma retryStep_numeric:
  assumes "1 \<le> limit rate" and "acc = None \<or> (\<exists>n. acc = Some (Num n))"
  shows "retryStep requests now acc rate = None \<or> (\<exists>n. retryStep requests now acc rate = Some (Num n))"
proof (cases "limit rate \<le> int (count (countUntil requests (inRate rate now)))")
  case False
  then show ?thesis using assms(2) by (simp add: retryStep_def Let_def)
next
  case True
  then have "takeWhile (inRate rate now) requests \<noteq> []"
    using assms(1) by (auto simp: countUntil_count)
  then show ?thesis
    using True assms(2) by (auto simp: retryStep_def Let_def countUntil_last lastNum_def)
qed

lemma foldl_retryStep_numeric:
  "\<forall>rate\<in>set rates. 1 \<le> limit rate \<Longrightarrow> acc = None \<or> (\<exists>n. acc = Some (Num n)) \<Longrightarrow>
     foldl (retryStep requests now) acc rates = None
     \<or> (\<exists>n. foldl (retryStep requests now) acc rates = Some (Num n))"
proof (induction rates arbitrary: acc)
  case Nil
  then show ?case by simp
next
  case (Cons r rs)
  have "retryStep requests now acc r = None \<or> (\<exists>n. retryStep requests now acc r = Some (Num n))"
    using Cons.prems by (intro retryStep_numeric) simp_all
  then show ?case using Cons.IH [of "retryStep requests now acc r"] Cons.prems(1) by simp
qed

section \<open>The loop over the rules\<close>

lemma retryStep_violated:
  assumes "1 \<le> limit rate"
  shows "retryStep requests now acc rate =
     (if spec_violated rate requests now
      then Some (js_max (Num (spec_candidate rate requests now))
                        (case acc of None \<Rightarrow> Num 0 | Some v \<Rightarrow> v))
      else acc)"
proof (cases "spec_violated rate requests now")
  case False
  then show ?thesis
    by (simp add: retryStep_def Let_def spec_violated_def spec_prefix_def countUntil_count inRate_fun)
next
  case True
  then have "takeWhile (\<lambda>t. now \<le> t + interval rate) requests \<noteq> []"
    using assms by (auto simp: spec_violated_def spec_prefix_def)
  then show ?thesis
    using True
    by (simp add: retryStep_def Let_def spec_violated_def spec_prefix_def spec_candidate_def
        countUntil_count countUntil_last inRate_fun lastNum_def add.commute)
qed

lemma foldl_retryStep_Some:
  assumes "\<forall>rate\<in>set rates. 1 \<le> limit rate"
  shows "foldl (retryStep requests now) (Some (Num m)) rates =
     Some (Num (fold max (map (\<lambda>rate. spec_candidate rate requests now)
                  (filter (\<lambda>rate. spec_violated rate requests now) rates)) m))"
  using assms
proof (induction rates arbitrary: m)
  case Nil
  then show ?case by simp
next
  case (Cons r rs)
  then have r: "1 \<le> limit r" and rs: "\<forall>rate\<in>set rs. 1 \<le> limit rate" by simp_all
  show ?case
    using Cons.IH [OF rs] by (simp add: retryStep_violated [OF r] max.commute)
qed

lemma foldl_retryStep_from_None:
  assumes "\<forall>rate\<in>set rates. 1 \<le> limit rate"
  shows "foldl (retryStep requests now) None rates =
     (if filter (\<lambda>rate. spec_violated rate requests now) rates = [] then None
      else Some (Num (fold max (map (\<lambda>rate. spec_candidate rate requests now)
                  (filter (\<lambda>rate. spec_violated rate requests now) rates)) 0)))"
  using assms
proof (induction rates)
  case Nil
  then show ?case by simp
next
  case (Cons r rs)
  then have r: "1 \<le> limit r" and rs: "\<forall>rate\<in>set rs. 1 \<le> limit rate" by simp_all
  show ?case
  proof (cases "spec_violated r requests now")
    case False
    then show ?thesis using Cons.IH [OF rs] by (simp add: retryStep_violated [OF r])
  next
    case True
    then show ?thesis
      using foldl_retryStep_Some [OF rs, of requests now "max (spec_candidate r requests now) 0"]
      by (simp add: retryStep_violated [OF r] max.commute)
  qed
qed

lemma fold_max_Max: "fold max xs (m::int) = Max (set (m # xs))"
  by (rule Max.set_eq_fold [symmetric])

lemma Max_Cons: "xs \<noteq> [] \<Longrightarrow> Max (set (m # xs)) = max (m::int) (Max (set xs))"
  by simp

lemma candidate_ge_now:
  assumes "1 \<le> limit rate" and "spec_violated rate requests now"
  shows "now \<le> spec_candidate rate requests now"
proof -
  have ne: "spec_prefix rate requests now \<noteq> []"
    using assms by (auto simp: spec_violated_def)
  then have "last (spec_prefix rate requests now) \<in> set (spec_prefix rate requests now)"
    by (rule last_in_set)
  then have "now \<le> last (spec_prefix rate requests now) + interval rate"
    unfolding spec_prefix_def by (auto dest: set_takeWhileD)
  then show ?thesis by (simp add: spec_candidate_def)
qed

lemma last_newestFirst_Min:
  "newestFirst xs \<Longrightarrow> xs \<noteq> [] \<Longrightarrow> last xs = Min (set xs)"
  unfolding newestFirst_def
proof (induction xs)
  case Nil
  then show ?case by simp
next
  case (Cons x xs)
  show ?case
  proof (cases "xs = []")
    case True
    then show ?thesis by simp
  next
    case False
    then have ih: "last xs = Min (set xs)" using Cons by simp
    have "last xs \<in> set xs" using False by (rule last_in_set)
    then have "last xs \<le> x" using Cons.prems(1) by auto
    then have "min x (Min (set xs)) = Min (set xs)" using ih by simp
    moreover have "Min (set (x # xs)) = min x (Min (set xs))" using False by simp
    ultimately show ?thesis using False ih by simp
  qed
qed

section \<open>Sequences of calls\<close>

lemma loadLog_after:
  "loadLog (snd (slidingWindow rates key now storage)) key
     = snd (decide rates (loadLog storage key) now)"
  by (simp add: slidingWindow_storage loadLog_def)

lemma allowedTimes_Nil: "allowedTimes rates key storage [] = []"
  by (simp add: allowedTimes_def)

lemma allowedTimes_Cons:
  "allowedTimes rates key storage (now # later) =
     (if retryLoop rates (workingLog rates (loadLog storage key) now) now = None
      then now # allowedTimes rates key (snd (slidingWindow rates key now storage)) later
      else allowedTimes rates key (snd (slidingWindow rates key now storage)) later)"
  by (simp add: allowedTimes_def slidingWindow_body decide_fst)

lemma allowedTimes_subset: "set (allowedTimes rates key storage nows) \<subseteq> set nows"
proof (induction nows arbitrary: storage)
  case Nil
  then show ?case by (simp add: allowedTimes_Nil)
next
  case (Cons now later)
  show ?case
    using Cons [of "snd (slidingWindow rates key now storage)"]
    by (auto simp: allowedTimes_Cons)
qed

lemma admittedIn_Cons:
  "admittedIn a len (t # ts) = (if a \<le> t \<and> t \<le> a + len then 1 else 0) + admittedIn a len ts"
  by (simp add: admittedIn_def)

lemma admittedIn_pos: "0 < admittedIn a len ts \<Longrightarrow> \<exists>t\<in>set ts. a \<le> t \<and> t \<le> a + len"
  unfolding admittedIn_def by (metis (mono_tags, lifting) filter_False length_greater_0_conv)

lemma length_filter_mono:
  "(\<And>x. x \<in> set xs \<Longrightarrow> P x \<Longrightarrow> Q x) \<Longrightarrow> length (filter P xs) \<le> length (filter Q xs)"
  by (induction xs) auto

lemma recent_kept:
  assumes nf: "newestFirst stored" and r: "rate \<in> set rates" and le: "now \<le> a + interval rate"
  shows "filter (\<lambda>t. a \<le> t) (workingLog rates stored now) = filter (\<lambda>t. a \<le> t) stored"
proof -
  have ne: "rates \<noteq> []" using r by auto
  let ?b = "Max (interval ` set rates)"
  have b: "interval rate \<le> ?b" using r by simp
  have "workingLog rates stored now = filter (\<lambda>t. now \<le> t + ?b) stored"
    using takeWhile_newestFirst [OF nf, where c = ?b and now = now]
    by (simp add: workingLog_takeWhile biggestInterval_Max [OF ne] inBiggest_Num [abs_def])
  moreover have "filter (\<lambda>t. a \<le> t) (filter (\<lambda>t. now \<le> t + ?b) stored) = filter (\<lambda>t. a \<le> t) stored"
    unfolding filter_filter using le b by (intro filter_cong) auto
  ultimately show ?thesis by simp
qed

lemma counted_filter:
  assumes nf: "newestFirst stored" and r: "rate \<in> set rates"
  shows "spec_prefix rate (workingLog rates stored now) now
           = filter (\<lambda>t. now \<le> t + interval rate) stored"
proof -
  have ne: "rates \<noteq> []" using r by auto
  let ?b = "Max (interval ` set rates)"
  have b: "interval rate \<le> ?b" using r by simp
  have w: "workingLog rates stored now = filter (\<lambda>t. now \<le> t + ?b) stored"
    using takeWhile_newestFirst [OF nf, where c = ?b and now = now]
    by (simp add: workingLog_takeWhile biggestInterval_Max [OF ne] inBiggest_Num [abs_def])
  have "newestFirst (workingLog rates stored now)"
    using nf by (simp add: workingLog_takeWhile newestFirst_takeWhile)
  then have "spec_prefix rate (workingLog rates stored now) now
      = filter (\<lambda>t. now \<le> t + interval rate) (workingLog rates stored now)"
    unfolding spec_prefix_def by (rule takeWhile_newestFirst)
  also have "\<dots> = filter (\<lambda>t. now \<le> t + interval rate) stored"
    unfolding w filter_filter using b by (intro filter_cong) auto
  finally show ?thesis .
qed

lemma window_invariant:
  assumes r: "rate \<in> set rates"
  shows "sorted nows \<Longrightarrow> newestFirst (loadLog storage key) \<Longrightarrow>
     (\<forall>t\<in>set (loadLog storage key). \<forall>s\<in>set nows. t \<le> s) \<Longrightarrow>
     0 < admittedIn a (interval rate) (allowedTimes rates key storage nows) \<Longrightarrow>
     int (length (filter (\<lambda>t. a \<le> t) (loadLog storage key)))
       + int (admittedIn a (interval rate) (allowedTimes rates key storage nows)) \<le> limit rate"
proof (induction nows arbitrary: storage)
  case Nil
  then show ?case by (simp add: allowedTimes_Nil admittedIn_def)
next
  case (Cons now later)
  let ?stored = "loadLog storage key"
  let ?w = "workingLog rates ?stored now"
  let ?storage' = "snd (slidingWindow rates key now storage)"
  let ?A' = "allowedTimes rates key ?storage' later"
  let ?I = "interval rate"
  have nf: "newestFirst ?stored" by (rule Cons.prems(2))
  have srt: "sorted later" and later_ge: "\<forall>s\<in>set later. now \<le> s"
    using Cons.prems(1) by simp_all
  have stored_le: "\<forall>t\<in>set ?stored. t \<le> now" using Cons.prems(3) by simp
  have w_sub: "set ?w \<subseteq> set ?stored"
    by (auto simp: workingLog_takeWhile dest: set_takeWhileD)
  have nf_w: "newestFirst ?w" using nf by (simp add: workingLog_takeWhile newestFirst_takeWhile)
  have stored': "loadLog ?storage' key = snd (decide rates ?stored now)" by (rule loadLog_after)
  have nf': "newestFirst (loadLog ?storage' key)"
    using nf_w w_sub stored_le by (auto simp: stored' decide_snd newestFirst_def)
  have le': "\<forall>t\<in>set (loadLog ?storage' key). \<forall>s\<in>set later. t \<le> s"
    using w_sub Cons.prems(3) later_ge by (auto simp: stored' decide_snd)
  have A'_ge: "\<forall>s\<in>set ?A'. now \<le> s"
    using allowedTimes_subset [of rates key ?storage' later] later_ge by auto
  have IH: "int (length (filter (\<lambda>t. a \<le> t) (loadLog ?storage' key)))
       + int (admittedIn a ?I ?A') \<le> limit rate" if "0 < admittedIn a ?I ?A'"
    using Cons.IH [OF srt nf' le' that] .
  have in_window: "now \<le> a + ?I"
  proof (cases "0 < admittedIn a ?I ?A'")
    case True
    then obtain s where "s \<in> set ?A'" and "s \<le> a + ?I" using admittedIn_pos by blast
    then show ?thesis using A'_ge by force
  next
    case False
    then have "admittedIn a ?I (allowedTimes rates key storage (now # later))
        = (if retryLoop rates ?w now = None \<and> a \<le> now \<and> now \<le> a + ?I then 1 else 0)"
      by (simp add: allowedTimes_Cons admittedIn_Cons)
    then show ?thesis using Cons.prems(4) by (simp split: if_splits)
  qed
  have kept: "filter (\<lambda>t. a \<le> t) ?w = filter (\<lambda>t. a \<le> t) ?stored"
    using nf r in_window by (rule recent_kept)
  show ?case
  proof (cases "retryLoop rates ?w now = None")
    case False
    then have A: "allowedTimes rates key storage (now # later) = ?A'"
      by (simp add: allowedTimes_Cons)
    have "loadLog ?storage' key = ?w" using False by (simp add: stored' decide_snd)
    then show ?thesis using IH Cons.prems(4) kept by (simp add: A)
  next
    case True
    then have A: "allowedTimes rates key storage (now # later) = now # ?A'"
      by (simp add: allowedTimes_Cons)
    have log': "loadLog ?storage' key = now # ?w" using True by (simp add: stored' decide_snd)
    show ?thesis
    proof (cases "0 < admittedIn a ?I ?A'")
      case True
      have "int (length (filter (\<lambda>t. a \<le> t) (now # ?w))) + int (admittedIn a ?I ?A') \<le> limit rate"
        using IH [OF True] by (simp add: log')
      moreover have "length (filter (\<lambda>t. a \<le> t) (now # ?w))
          = (if a \<le> now then 1 else 0) + length (filter (\<lambda>t. a \<le> t) ?stored)"
        using kept by simp
      moreover have "admittedIn a ?I (now # ?A') = (if a \<le> now then 1 else 0) + admittedIn a ?I ?A'"
        using in_window by (simp add: admittedIn_Cons)
      ultimately show ?thesis unfolding A by (simp split: if_splits)
    next
      case none: False
      then have now_in: "a \<le> now"
        using Cons.prems(4) by (simp add: A admittedIn_Cons split: if_splits)
      have "\<not> spec_violated rate ?w now" using True r by (simp add: retryLoop_None)
      then have "int (length (filter (\<lambda>t. now \<le> t + ?I) ?stored)) < limit rate"
        by (simp add: spec_violated_def counted_filter [OF nf r])
      moreover have "length (filter (\<lambda>t. a \<le> t) ?stored)
          \<le> length (filter (\<lambda>t. now \<le> t + ?I) ?stored)"
        using in_window by (intro length_filter_mono) simp
      ultimately show ?thesis using none now_in in_window by (simp add: A admittedIn_Cons)
    qed
  qed
qed

section \<open>Rules with integer fields, as they are read\<close>

lemma inRate_parsed_integer: "inRate_parsed (parsedOf rate) now = inRate rate now"
  by (rule ext) (simp add: inRate_parsed_def parsedOf_def inRate_def)

lemma retryStep_parsed_integer:
  "retryStep_parsed requests now acc (parsedOf rate) = retryStep requests now acc rate"
proof -
  have "plimit (parsedOf rate) = Num (limit rate)" and "pinterval (parsedOf rate) = Num (interval rate)"
    by (simp_all add: parsedOf_def)
  then show ?thesis
    by (simp add: retryStep_parsed_def retryStep_def inRate_parsed_integer Let_def)
qed

lemma retryLoop_parsed_integer:
  "retryLoop_parsed (map parsedOf rates) requests now = retryLoop rates requests now"
proof -
  have "foldl (retryStep_parsed requests now) acc (map parsedOf rates)
          = foldl (retryStep requests now) acc rates" for acc
    by (induction rates arbitrary: acc) (simp_all add: retryStep_parsed_integer)
  then show ?thesis by (simp add: retryLoop_parsed_def retryLoop_def)
qed

lemma biggestInterval_parsed_integer:
  "biggestInterval_parsed (map parsedOf rates) = biggestInterval rates"
  by (simp add: biggestInterval_parsed_def biggestInterval_def parsedOf_def comp_def)

lemma decide_parsed_integer:
  "decide_parsed (map parsedOf rates) stored now = decide rates stored now"
  by (simp add: decide_parsed_def decide_def workingLog_parsed_def workingLog_def
      biggestInterval_parsed_integer retryLoop_parsed_integer)

lemma slidingWindow_parsed_integer:
  "slidingWindow_parsed (map parsedOf rates) key now storage = slidingWindow rates key now storage"
  by (simp add: slidingWindow_parsed_def slidingWindow_def decide_parsed_integer)

lemma retryStep_parsed_keeps: "retryStep_parsed requests now (Some v) rate \<noteq> None"
  by (simp add: retryStep_parsed_def Let_def)

lemma foldl_retryStep_parsed_keeps:
  "foldl (retryStep_parsed requests now) (Some v) rates \<noteq> None"
proof (induction rates arbitrary: v)
  case Nil
  then show ?case by simp
next
  case (Cons r rs)
  obtain v' where "retryStep_parsed requests now (Some v) r = Some v'"
    using retryStep_parsed_keeps [of requests now v r] by auto
  then show ?case using Cons [of v'] by simp
qed

lemma foldl_retryStep_parsed_nonpositive:
  assumes "rate \<in> set rates" and "plimit rate = Num l" and "l \<le> 0"
  shows "foldl (retryStep_parsed requests now) acc rates \<noteq> None"
  using assms(1)
proof (induction rates arbitrary: acc)
  case Nil
  then show ?case by simp
next
  case (Cons r rs)
  show ?case
  proof (cases "r = rate")
    case True
    then obtain v where "retryStep_parsed requests now acc r = Some v"
      using assms(2,3) by (simp add: retryStep_parsed_def Let_def)
    then show ?thesis using foldl_retryStep_parsed_keeps [of requests now v rs] by simp
  next
    case False
    then have "rate \<in> set rs" using Cons.prems by simp
    then show ?thesis using Cons.IH by simp
  qed
qed

section \<open>The two paths of the coordinator\<close>

lemma rateLimit_hit:
  assumes "cache_match (caches w (cacheNameOf cacheName)) (key, map printRate rates) ms = Some resp"
  shows "rateLimit w name key rates cacheName ms msResp =
     (case json (body resp) of
        DataOK \<Rightarrow> (None, w)
      | DataLIMITED retryAt \<Rightarrow>
          (Some \<lparr> status = 429, retryAfter = retryAtNumber retryAt - ceilSeconds msResp \<rparr>, w))"
  using assms by (simp add: rateLimit_def Let_def split: Data.splits)

lemma rateLimit_miss:
  assumes "cache_match (caches w (cacheNameOf cacheName)) (key, map printRate rates) ms = None"
  shows "rateLimit w name key rates cacheName ms msResp =
     (let a = fetch (key, map printRate rates) ms (objects w name);
          w1 = w \<lparr> objects := (objects w)(name := snd a), fetches := fetches w + 1 \<rparr>
      in case json (body (fst a)) of
           DataOK \<Rightarrow> (None, w1)
         | DataLIMITED retryAt \<Rightarrow>
             (Some \<lparr> status = 429, retryAfter = retryAtNumber retryAt - ceilSeconds msResp \<rparr>,
              if maxAge (fst a) \<noteq> None
              then w1 \<lparr> caches := (caches w1)(cacheNameOf cacheName :=
                        cache_put (caches w1 (cacheNameOf cacheName))
                          (key, map printRate rates) (fst a) ms) \<rparr>
              else w1))"
  using assms by (auto simp: rateLimit_def Let_def split: Data.splits)

lemma json_LIMITED:
  "json (LIMITED v) = DataLIMITED (case v of Num n \<Rightarrow> Some n | _ \<Rightarrow> None)"
  by (cases v) simp_all

lemma fetch_LIMITED_maxAge:
  "body (fst (fetch url ms storage)) = LIMITED v
     \<Longrightarrow> maxAge (fst (fetch url ms storage)) = Some (js_sub v (floorSeconds ms))"
  by (auto simp: fetch_def slidingWindow_parsed_def Let_def split: option.splits)

lemma fetch_body:
  "body (fst (fetch url ms storage)) = OK \<longleftrightarrow>
     fst (decide_parsed (map parseRate (snd url)) (loadLog storage (fst url)) (floorSeconds ms)) = None"
  by (simp add: fetch_def slidingWindow_parsed_def Let_def split: option.splits)

lemma fetch_integer:
  "map parseRate rs = map parsedOf rates
     \<Longrightarrow> fetch (key, rs) ms storage = slidingWindow rates key (floorSeconds ms) storage"
  by (simp add: fetch_def slidingWindow_parsed_integer)

lemma ceilSeconds_whole: "ceilSeconds (n * 1000) = n"
  by (simp add: ceilSeconds_def)

lemma floorSeconds_whole: "floorSeconds (n * 1000) = n"
  by (simp add: floorSeconds_def)

lemma ceilSeconds_if:
  "ceilSeconds ms = (if ms mod 1000 = 0 then ms div 1000 else ms div 1000 + 1)"
  by (simp add: ceilSeconds_def zdiv_zminus1_eq_if)

lemma later_div: "(ms + 2000) div 1000 = ms div 1000 + (2::int)"
  using div_mult_self1 [of 1000 ms 2] by simp

lemma later_mod: "(ms + 2000) mod 1000 = ms mod (1000::int)"
  using mod_mult_self1 [of ms 2 1000] by simp

lemma ceilSeconds_later:
  "ceilSeconds (ms + 2000) = floorSeconds ms + (if ms mod 1000 = 0 then 2 else 3)"
  by (simp add: ceilSeconds_if later_div later_mod floorSeconds_def)

text \<open>A limited answer of the limiter is stored and serves the next call while it is fresh.\<close>

lemma served_from_cache:
  assumes miss: "cache_match (caches w (cacheNameOf cacheName)) (key, map printRate rates) ms = None"
    and lim: "body (fst (fetch (key, map printRate rates) ms (objects w name))) = LIMITED (Num retryAt)"
    and fresh: "ms2 < ms + (retryAt - floorSeconds ms) * 1000"
  shows "rateLimit (snd (rateLimit w name key rates cacheName ms msResp))
           name key rates cacheName ms2 msResp2
         = (Some \<lparr> status = 429, retryAfter = retryAt - ceilSeconds msResp2 \<rparr>,
            snd (rateLimit w name key rates cacheName ms msResp))"
proof -
  let ?url = "(key, map printRate rates)"
  let ?a = "fetch ?url ms (objects w name)"
  let ?c = "cacheNameOf cacheName"
  let ?out = "rateLimit w name key rates cacheName ms msResp"
  have age: "maxAge (fst ?a) = Some (Num (retryAt - floorSeconds ms))"
    using fetch_LIMITED_maxAge [OF lim] by simp
  have entry: "caches (snd ?out) ?c ?url = Some \<lparr> response = fst ?a, storedAt = ms \<rparr>"
    using lim age by (simp add: rateLimit_miss [OF miss] Let_def cache_put_def)
  have "cache_match (caches (snd ?out) ?c) ?url ms2 = Some (fst ?a)"
    using age fresh by (simp add: cache_match_def entry fresh_def)
  then show ?thesis
    using lim by (simp add: rateLimit_hit retryAtNumber_def)
qed

text \<open>The integer rules of the examples, as the caller writes them and as they are read.\<close>

lemma wire_1_5:
  "map parseRate (map printRate
      [\<lparr> climit = NumFinite False ''1'' 1, cinterval = NumFinite False ''5'' 1 \<rparr>])
   = map parsedOf [\<lparr> limit = 1, interval = 5 \<rparr>]"
  by (simp add: printRate_def finiteToString_def parseRate_def parseInt_def stripSign_def
      stripPrefix_def isWhiteSpace_def isDigitOf_def digitValue_def digitsValue_def parsedOf_def)

lemma wire_0_10:
  "map parseRate (map printRate [\<lparr> climit = NumZero, cinterval = NumFinite False ''1'' 2 \<rparr>])
   = map parsedOf [\<lparr> limit = 0, interval = 10 \<rparr>]"
  by (simp add: printRate_def finiteToString_def parseRate_def parseInt_def stripSign_def
      stripPrefix_def isWhiteSpace_def isDigitOf_def digitValue_def digitsValue_def parsedOf_def)

lemma wire_1_0:
  "map parseRate (map printRate [\<lparr> climit = NumFinite False ''1'' 1, cinterval = NumZero \<rparr>])
   = map parsedOf [\<lparr> limit = 1, interval = 0 \<rparr>]"
  by (simp add: printRate_def finiteToString_def parseRate_def parseInt_def stripSign_def
      stripPrefix_def isWhiteSpace_def isDigitOf_def digitValue_def digitsValue_def parsedOf_def)

text \<open>
  What is read is not always what was written: \<open>1e21\<close> is printed \<open>1e+21\<close> and read as 1,
  \<open>0.5\<close> is read as 0, and \<open>NaN\<close> is read as \<open>NaN\<close>.
\<close>

lemma wire_not_identity:
  "map parseRate (map printRate
      [\<lparr> climit = NumFinite False ''1'' 22, cinterval = NumFinite False ''5'' 0 \<rparr>,
       \<lparr> climit = NumNaN, cinterval = NumFinite True ''3'' 1 \<rparr>])
   = [\<lparr> plimit = Num 1, pinterval = Num 0 \<rparr>, \<lparr> plimit = NaN, pinterval = Num (- 3) \<rparr>]"
  by (simp add: printRate_def finiteToString_def parseRate_def parseInt_def stripSign_def
      stripPrefix_def isWhiteSpace_def isDigitOf_def digitValue_def digitsValue_def)

section \<open>At most \<open>limit\<close> admissions per window\<close>

text \<open>
  C1. Take any sequence of calls for one key, starting with nothing stored for the key, at
  non-decreasing times and with a fixed rules list whose rules all have a positive limit and
  a positive interval. Then for every rule of the list and every window start \<open>a\<close>, the
  number of calls answered OK whose time lies in the closed window \<open>[a, a + interval]\<close> is
  at most the rule's limit. (The closed window is the widest one the inclusive test of the
  scan counts; every shorter or half-open window of the rule is covered by it.)
\<close>

theorem allowed_within_window_bounded:
  assumes "sorted nows"
    and "\<forall>rate\<in>set rates. 0 < limit rate \<and> 0 < interval rate"
    and "rate \<in> set rates"
    and "storage (bucketOf key) = None"
  shows "int (admittedIn a (interval rate) (allowedTimes rates key storage nows)) \<le> limit rate"
proof (cases "0 < admittedIn a (interval rate) (allowedTimes rates key storage nows)")
  case False
  then show ?thesis using assms(2,3) by force
next
  case True
  have e: "loadLog storage key = []" using assms(4) by (simp add: loadLog_def)
  have "int (length (filter (\<lambda>t. a \<le> t) (loadLog storage key)))
       + int (admittedIn a (interval rate) (allowedTimes rates key storage nows)) \<le> limit rate"
    using assms(3,1) _ _ True by (rule window_invariant) (simp_all add: e newestFirst_def)
  then show ?thesis by (simp add: e)
qed

text \<open>
  The rule \<open>{limit: 2, interval: 10}\<close> and calls at 0, 1, 2, 10, 11: the calls at 0, 1 and 11
  are allowed, the call at 2 is limited with \<open>retryAt = 10\<close>, and the window \<open>[1, 11]\<close>
  holds two admissions.
\<close>

theorem allowed_within_window_bounded_witness:
  "sorted [0, 1, 2, 10, 11 :: int]
   \<and> calls [\<lparr>limit = 2, interval = 10\<rparr>] ''k'' Map.empty [0, 1, 2]
        = [(0, OK), (1, OK), (2, LIMITED (Num 10))]
   \<and> allowedTimes [\<lparr>limit = 2, interval = 10\<rparr>] ''k'' Map.empty [0, 1, 2, 10, 11] = [0, 1, 11]
   \<and> int (admittedIn 1 10 (allowedTimes [\<lparr>limit = 2, interval = 10\<rparr>] ''k'' Map.empty
        [0, 1, 2, 10, 11])) \<le> 2"
  using allowed_within_window_bounded [of "[0, 1, 2, 10, 11]" "[\<lparr>limit = 2, interval = 10\<rparr>]"
      "\<lparr>limit = 2, interval = 10\<rparr>" Map.empty "''k''" 1]
  by (simp add: allowedTimes_Cons allowedTimes_Nil slidingWindow_storage slidingWindow_def
      loadLog_def eval_decide decide_def Let_def)

section \<open>The retry time\<close>

text \<open>
  C2, as amended. Let every rule have a limit of at least 1. The loop visits every rule:
  for each it counts the prefix of the working log with \<open>timestamp + interval >= now\<close> and
  records the last entry of that prefix, which is its oldest in a newest-first log; a rule
  is violated exactly when the count reaches its limit, and its candidate is that boundary
  plus its interval. The returned \<open>retryAt\<close> is the larger of 0 and the maximum candidate
  over all violated rules, hence the maximum candidate itself when \<open>now\<close> is not negative;
  and the request is allowed exactly when no rule is violated.
\<close>

theorem retryAt_is_max_candidate:
  assumes "\<forall>rate\<in>set rates. 1 \<le> limit rate"
  shows "retryLoop rates requests now =
           (case spec_retryAt rates requests now of
              None \<Rightarrow> None | Some m \<Rightarrow> Some (Num (max 0 m)))
    \<and> (0 \<le> now \<longrightarrow> retryLoop rates requests now = map_option Num (spec_retryAt rates requests now))
    \<and> (fst (decide rates stored now) = None \<longleftrightarrow>
          (\<forall>rate\<in>set rates. \<not> spec_violated rate (workingLog rates stored now) now))
    \<and> (\<forall>rate\<in>set rates.
          count (countUntil requests (inRate rate now)) = length (spec_prefix rate requests now)
          \<and> (spec_violated rate requests now \<longrightarrow>
               last_item (countUntil requests (inRate rate now))
                 = Some (last (spec_prefix rate requests now))
               \<and> (newestFirst requests \<longrightarrow>
                    last (spec_prefix rate requests now)
                      = Min (set (spec_prefix rate requests now)))))"
proof (intro conjI impI ballI)
  let ?V = "filter (\<lambda>rate. spec_violated rate requests now) rates"
  let ?C = "map (\<lambda>rate. spec_candidate rate requests now) ?V"
  have loop: "retryLoop rates requests now =
      (if ?V = [] then None else Some (Num (Max (set (0 # ?C)))))"
    unfolding retryLoop_def foldl_retryStep_from_None [OF assms] fold_max_Max ..
  have spec: "spec_retryAt rates requests now = (if ?V = [] then None else Some (Max (set ?C)))"
    by (simp add: spec_retryAt_def Let_def)
  have mx: "Max (set (0 # ?C)) = max 0 (Max (set ?C))" if "?V \<noteq> []"
    using that by (intro Max_Cons) simp
  show general: "retryLoop rates requests now =
           (case spec_retryAt rates requests now of
              None \<Rightarrow> None | Some m \<Rightarrow> Some (Num (max 0 m)))"
    using mx by (simp add: loop spec)
  show "retryLoop rates requests now = map_option Num (spec_retryAt rates requests now)"
    if "0 \<le> now"
  proof (cases "?V = []")
    case True
    then show ?thesis by (simp add: loop spec)
  next
    case False
    have "\<forall>c\<in>set ?C. 0 \<le> c"
      using candidate_ge_now assms that by fastforce
    moreover have "Max (set ?C) \<in> set ?C" using False by (intro Max_in) (auto simp: filter_empty_conv)
    ultimately have "0 \<le> Max (set ?C)" by blast
    then show ?thesis using False by (simp add: general spec)
  qed
  show "fst (decide rates stored now) = None \<longleftrightarrow>
          (\<forall>rate\<in>set rates. \<not> spec_violated rate (workingLog rates stored now) now)"
    by (simp add: decide_fst retryLoop_None)
next
  fix rate
  assume "rate \<in> set rates"
  then have l: "1 \<le> limit rate" using assms by simp
  show "count (countUntil requests (inRate rate now)) = length (spec_prefix rate requests now)"
    by (simp add: countUntil_count spec_prefix_def inRate_fun)
  assume v: "spec_violated rate requests now"
  then have ne: "spec_prefix rate requests now \<noteq> []"
    using l by (auto simp: spec_violated_def)
  then show "last_item (countUntil requests (inRate rate now))
                 = Some (last (spec_prefix rate requests now))"
    by (simp add: countUntil_last spec_prefix_def inRate_fun)
  assume "newestFirst requests"
  then have "newestFirst (spec_prefix rate requests now)"
    unfolding spec_prefix_def by (rule newestFirst_takeWhile)
  then show "last (spec_prefix rate requests now) = Min (set (spec_prefix rate requests now))"
    using ne by (rule last_newestFirst_Min)
qed

text \<open>
  Three rules on the working log \<open>[20, 5]\<close> at time 22: the first two are violated with the
  candidates 30 and 65, the third is not.
\<close>

theorem retryAt_is_max_candidate_witness:
  "retryLoop [\<lparr>limit = 1, interval = 10\<rparr>, \<lparr>limit = 2, interval = 60\<rparr>, \<lparr>limit = 9, interval = 90\<rparr>]
      [20, 5] 22 = Some (Num 65)
   \<and> spec_retryAt [\<lparr>limit = 1, interval = 10\<rparr>, \<lparr>limit = 2, interval = 60\<rparr>, \<lparr>limit = 9, interval = 90\<rparr>]
      [20, 5] 22 = Some 65"
  using retryAt_is_max_candidate [of
      "[\<lparr>limit = 1, interval = 10\<rparr>, \<lparr>limit = 2, interval = 60\<rparr>, \<lparr>limit = 9, interval = 90\<rparr>]"
      "[20, 5]" 22 "[]"]
  by (simp add: spec_retryAt_def spec_violated_def spec_prefix_def spec_candidate_def)

text \<open>
  C2 as stated, for every rules list, fails: the rule \<open>{limit: 0, interval: 10}\<close> on an empty
  working log is violated with nothing counted, \<open>last\<close> is \<open>undefined\<close>, and the returned
  \<open>retryAt\<close> is \<open>NaN\<close>, not a candidate time.
\<close>

theorem retryAt_of_limit_zero:
  "retryLoop [\<lparr>limit = 0, interval = 10\<rparr>] [] 100 = Some NaN
   \<and> spec_violated \<lparr>limit = 0, interval = 10\<rparr> [] 100
   \<and> retryLoop [\<lparr>limit = 0, interval = 10\<rparr>] [] 100
       \<noteq> map_option Num (spec_retryAt [\<lparr>limit = 0, interval = 10\<rparr>] [] 100)"
  by (simp add: eval_decide spec_retryAt_def spec_violated_def spec_prefix_def)

section \<open>The working log\<close>

text \<open>
  C3. For every stored log and every call, the working log is the longest prefix of the
  stored log whose entries all satisfy \<open>timestamp + biggestInterval >= now\<close>: it is a prefix,
  all its entries satisfy the test, and no prefix with that property is longer. For a
  non-empty rules list \<open>biggestInterval\<close> is the maximum interval of the rules. Membership
  is inclusive: in a newest-first stored log a request at \<open>t0\<close> is counted for a rule at
  \<open>now = t0 + interval\<close> and is not counted at \<open>now = t0 + interval + 1\<close>.
\<close>

theorem working_log_longest_prefix:
  "(\<exists>rest. stored = workingLog rates stored now @ rest)
   \<and> (\<forall>t\<in>set (workingLog rates stored now). inBiggest (biggestInterval rates) now t)
   \<and> (\<forall>ys rest. stored = ys @ rest \<and> (\<forall>t\<in>set ys. inBiggest (biggestInterval rates) now t)
         \<longrightarrow> length ys \<le> length (workingLog rates stored now))
   \<and> (rates \<noteq> [] \<longrightarrow>
         (\<forall>t. inBiggest (biggestInterval rates) now t = (t + Max (interval ` set rates) \<ge> now)))
   \<and> (\<forall>rate t0. rate \<in> set rates \<and> newestFirst stored \<and> t0 \<in> set stored \<longrightarrow>
         t0 \<in> set (countedPrefix rate (workingLog rates stored (t0 + interval rate))
                      (t0 + interval rate))
         \<and> t0 \<notin> set (countedPrefix rate (workingLog rates stored (t0 + interval rate + 1))
                      (t0 + interval rate + 1)))"
proof (intro conjI allI impI ballI)
  let ?P = "inBiggest (biggestInterval rates) now"
  show "\<exists>rest. stored = workingLog rates stored now @ rest"
    by (metis workingLog_takeWhile takeWhile_dropWhile_id)
  show "?P t" if "t \<in> set (workingLog rates stored now)" for t
    using that by (auto simp: workingLog_takeWhile dest: set_takeWhileD)
  show "length ys \<le> length (workingLog rates stored now)"
    if "stored = ys @ rest \<and> (\<forall>t\<in>set ys. ?P t)" for ys rest
  proof -
    have "takeWhile ?P (ys @ rest) = ys @ takeWhile ?P rest"
      using that by simp
    then show ?thesis using that by (simp add: workingLog_takeWhile)
  qed
  show "?P t = (t + Max (interval ` set rates) \<ge> now)" if "rates \<noteq> []" for t
    using that by (simp add: biggestInterval_Max inBiggest_Num)
next
  fix rate t0
  assume h: "rate \<in> set rates \<and> newestFirst stored \<and> t0 \<in> set stored"
  then have ne: "rates \<noteq> []" by auto
  let ?now = "t0 + interval rate"
  have le: "interval rate \<le> Max (interval ` set rates)" using h by simp
  have "t0 \<in> set (workingLog rates stored ?now)"
    unfolding workingLog_takeWhile
  proof (rule takeWhile_all_before)
    show "newestFirst stored" and "t0 \<in> set stored" using h by simp_all
    show "inBiggest (biggestInterval rates) ?now t" if "t0 \<le> t" for t
      using that le by (simp add: biggestInterval_Max [OF ne] inBiggest_Num)
  qed
  moreover have "newestFirst (workingLog rates stored ?now)"
    using h by (simp add: workingLog_takeWhile newestFirst_takeWhile)
  ultimately show "t0 \<in> set (countedPrefix rate (workingLog rates stored ?now) ?now)"
    unfolding countedPrefix_takeWhile
    by (intro takeWhile_all_before) (simp_all add: inRate_def)
  show "t0 \<notin> set (countedPrefix rate (workingLog rates stored (?now + 1)) (?now + 1))"
  proof
    assume "t0 \<in> set (countedPrefix rate (workingLog rates stored (?now + 1)) (?now + 1))"
    then have "inRate rate (?now + 1) t0"
      unfolding countedPrefix_takeWhile by (rule set_takeWhileD [THEN conjunct2])
    then show False by (simp add: inRate_def)
  qed
qed

text \<open>The stored log \<open>[7, 5, 1]\<close> under one rule of interval 10, at the times 15 and 16.\<close>

theorem working_log_longest_prefix_witness:
  "workingLog [\<lparr>limit = 2, interval = 10\<rparr>] [7, 5, 1] 15 = [7, 5]
   \<and> 5 \<in> set (countedPrefix \<lparr>limit = 2, interval = 10\<rparr>
                 (workingLog [\<lparr>limit = 2, interval = 10\<rparr>] [7, 5, 1] 15) 15)
   \<and> 5 \<notin> set (countedPrefix \<lparr>limit = 2, interval = 10\<rparr>
                 (workingLog [\<lparr>limit = 2, interval = 10\<rparr>] [7, 5, 1] 16) 16)"
  using working_log_longest_prefix [of "[7, 5, 1]" "[\<lparr>limit = 2, interval = 10\<rparr>]" 15]
    working_log_longest_prefix [of "[7, 5, 1]" "[\<lparr>limit = 2, interval = 10\<rparr>]" 16]
  by (simp add: newestFirst_def workingLog_takeWhile biggestInterval_Max inBiggest_Num)

section \<open>What a call writes back\<close>

text \<open>
  C4. Every call writes the bucket of its key, on both outcomes, and no other bucket. When
  the answer is OK the written log is \<open>now\<close> in front of the working log. When the answer
  is LIMITED the written log is the working log itself: \<open>now\<close> is not recorded, the log is
  no longer than the stored one, and it holds no entry outside the biggest interval.
\<close>

theorem persisted_log_frame:
  "snd (slidingWindow rates key now storage)
     = storage(bucketOf key \<mapsto> snd (decide rates (loadLog storage key) now))
   \<and> (body (fst (slidingWindow rates key now storage)) = OK \<longrightarrow>
        snd (decide rates (loadLog storage key) now)
          = now # workingLog rates (loadLog storage key) now)
   \<and> (body (fst (slidingWindow rates key now storage)) \<noteq> OK \<longrightarrow>
        snd (decide rates (loadLog storage key) now) = workingLog rates (loadLog storage key) now
        \<and> length (snd (decide rates (loadLog storage key) now)) \<le> length (loadLog storage key)
        \<and> (\<forall>t\<in>set (snd (decide rates (loadLog storage key) now)).
              inBiggest (biggestInterval rates) now t))"
proof (intro conjI impI)
  let ?stored = "loadLog storage key"
  show "snd (slidingWindow rates key now storage)
          = storage(bucketOf key \<mapsto> snd (decide rates ?stored now))"
    by (rule slidingWindow_storage)
  show "snd (decide rates ?stored now) = now # workingLog rates ?stored now"
    if "body (fst (slidingWindow rates key now storage)) = OK"
    using that by (simp add: slidingWindow_body decide_fst decide_snd)
  assume lim: "body (fst (slidingWindow rates key now storage)) \<noteq> OK"
  then show eq: "snd (decide rates ?stored now) = workingLog rates ?stored now"
    by (simp add: slidingWindow_body decide_fst decide_snd)
  show "length (snd (decide rates ?stored now)) \<le> length ?stored"
    unfolding eq workingLog_takeWhile by (rule length_takeWhile_le)
  show "\<forall>t\<in>set (snd (decide rates ?stored now)). inBiggest (biggestInterval rates) now t"
    unfolding eq workingLog_takeWhile by (auto dest: set_takeWhileD)
qed

text \<open>One rule \<open>{limit: 1, interval: 10}\<close> and the stored log \<open>[11, 1]\<close>: limited at 12, allowed at 22.\<close>

theorem persisted_log_frame_witness:
  "body (fst (slidingWindow [\<lparr>limit = 1, interval = 10\<rparr>] ''k'' 12
                [bucketOf ''k'' \<mapsto> [11, 1]])) \<noteq> OK
   \<and> snd (slidingWindow [\<lparr>limit = 1, interval = 10\<rparr>] ''k'' 12 [bucketOf ''k'' \<mapsto> [11, 1]])
       = [bucketOf ''k'' \<mapsto> [11]]
   \<and> body (fst (slidingWindow [\<lparr>limit = 1, interval = 10\<rparr>] ''k'' 22
                [bucketOf ''k'' \<mapsto> [11, 1]])) = OK
   \<and> snd (slidingWindow [\<lparr>limit = 1, interval = 10\<rparr>] ''k'' 22 [bucketOf ''k'' \<mapsto> [11, 1]])
       = [bucketOf ''k'' \<mapsto> [22]]"
  using persisted_log_frame [of "[\<lparr>limit = 1, interval = 10\<rparr>]" "''k''" 12 "[bucketOf ''k'' \<mapsto> [11, 1]]"]
    persisted_log_frame [of "[\<lparr>limit = 1, interval = 10\<rparr>]" "''k''" 22 "[bucketOf ''k'' \<mapsto> [11, 1]]"]
  by (simp add: slidingWindow_body decide_fst decide_snd loadLog_def workingLog_takeWhile
      biggestInterval_Max inBiggest_Num retryLoop_def retryStep_def countUntil_count
      countUntil_last inRate_fun lastNum_def)

section \<open>The order of the log\<close>

text \<open>
  C5, as amended. If the stored log is newest-first with equal neighbours allowed and
  \<open>now\<close> is at least every stored timestamp, the written log is again newest-first in that
  sense; if the stored log is strictly decreasing and \<open>now\<close> is greater than every stored
  timestamp, the written log is strictly decreasing.
\<close>

theorem persisted_log_newest_first:
  "(newestFirst stored \<and> (\<forall>t\<in>set stored. t \<le> now)
      \<longrightarrow> newestFirst (snd (decide rates stored now)))
   \<and> (strictlyNewestFirst stored \<and> (\<forall>t\<in>set stored. t < now)
      \<longrightarrow> strictlyNewestFirst (snd (decide rates stored now)))"
proof (intro conjI impI)
  let ?w = "workingLog rates stored now"
  have sub: "t \<in> set stored" if "t \<in> set ?w" for t
    using that by (auto simp: workingLog_takeWhile dest: set_takeWhileD)
  show "newestFirst (snd (decide rates stored now))"
    if h: "newestFirst stored \<and> (\<forall>t\<in>set stored. t \<le> now)"
  proof -
    have "newestFirst ?w" using h by (simp add: workingLog_takeWhile newestFirst_takeWhile)
    moreover have "newestFirst (now # ?w)"
      using \<open>newestFirst ?w\<close> h sub by (auto simp: newestFirst_def)
    ultimately show ?thesis by (simp add: decide_snd)
  qed
  show "strictlyNewestFirst (snd (decide rates stored now))"
    if h: "strictlyNewestFirst stored \<and> (\<forall>t\<in>set stored. t < now)"
  proof -
    have "strictlyNewestFirst ?w"
      using h by (simp add: workingLog_takeWhile strictlyNewestFirst_takeWhile)
    moreover have "strictlyNewestFirst (now # ?w)"
      using \<open>strictlyNewestFirst ?w\<close> h sub by (auto simp: strictlyNewestFirst_def)
    ultimately show ?thesis by (simp add: decide_snd)
  qed
qed

text \<open>The stored log \<open>[5]\<close> at the times 5 and 6.\<close>

theorem persisted_log_newest_first_witness:
  "newestFirst (snd (decide [\<lparr>limit = 2, interval = 10\<rparr>] [5] 5))
   \<and> snd (decide [\<lparr>limit = 2, interval = 10\<rparr>] [5] 5) = [5, 5]
   \<and> strictlyNewestFirst (snd (decide [\<lparr>limit = 2, interval = 10\<rparr>] [5] 6))
   \<and> snd (decide [\<lparr>limit = 2, interval = 10\<rparr>] [5] 6) = [6, 5]"
  using persisted_log_newest_first [of "[5]" 5 "[\<lparr>limit = 2, interval = 10\<rparr>]"]
    persisted_log_newest_first [of "[5]" 6 "[\<lparr>limit = 2, interval = 10\<rparr>]"]
  by (simp add: eval_decide newestFirst_def strictlyNewestFirst_def)

text \<open>
  C5 as stated fails: two requests in the same second are both recorded. With the rule
  \<open>{limit: 2, interval: 10}\<close>, the strictly decreasing stored log \<open>[5]\<close> and \<open>now = 5\<close>, the
  request is allowed and the written log is \<open>[5, 5]\<close>.
\<close>

theorem same_second_not_strict:
  "strictlyNewestFirst [5] \<and> (5::int) \<le> 5
   \<and> decide [\<lparr>limit = 2, interval = 10\<rparr>] [5] 5 = (None, [5, 5])
   \<and> \<not> strictlyNewestFirst (snd (decide [\<lparr>limit = 2, interval = 10\<rparr>] [5] 5))"
  by (simp add: decide_def Let_def eval_decide strictlyNewestFirst_def)

section \<open>The multi-rule scenario\<close>


section \<open>The countdown of a rejection\<close>

text \<open>
  C7, as amended. Whenever the coordinator obtains a LIMITED answer whose \<open>retryAt\<close> is a
  number, from the cache or from the limiter, the rejection carries
  \<open>Retry-After = retryAt - Math.ceil(Date.now() / 1000)\<close>, taken when the rejection is built
  and not when the cache entry was made. An answer that came from the limiter is stored in
  the cache; a later call for the same descriptor while the entry is fresh is served from
  the cache and leaves the world as it was (no call of the limiter, no write). In
  particular, let the limiter decide at the clock \<open>ms\<close> with \<open>retryAt = now + 5\<close>, where
  \<open>now = Math.floor(ms / 1000)\<close> is the time of the decision: the caller that comes 2000
  milliseconds later receives \<open>Retry-After = 3\<close> if \<open>ms\<close> is a whole second, and 2 otherwise.
\<close>

theorem retry_after_recomputed:
  "(cache_match (caches w (cacheNameOf cacheName)) (key, map printRate rates) ms = Some resp
      \<and> body resp = LIMITED (Num retryAt)
    \<longrightarrow> rateLimit w name key rates cacheName ms msResp
          = (Some \<lparr> status = 429, retryAfter = retryAt - ceilSeconds msResp \<rparr>, w))
   \<and> (cache_match (caches w (cacheNameOf cacheName)) (key, map printRate rates) ms = None
      \<and> body (fst (fetch (key, map printRate rates) ms (objects w name))) = LIMITED (Num retryAt)
    \<longrightarrow> fst (rateLimit w name key rates cacheName ms msResp)
          = Some \<lparr> status = 429, retryAfter = retryAt - ceilSeconds msResp \<rparr>
        \<and> (\<forall>ms2 msResp2.
              ms2 < ms + (retryAt - floorSeconds ms) * 1000
            \<longrightarrow> rateLimit (snd (rateLimit w name key rates cacheName ms msResp))
                   name key rates cacheName ms2 msResp2
                 = (Some \<lparr> status = 429, retryAfter = retryAt - ceilSeconds msResp2 \<rparr>,
                    snd (rateLimit w name key rates cacheName ms msResp)))
        \<and> (retryAt = floorSeconds ms + 5
            \<longrightarrow> rateLimit (snd (rateLimit w name key rates cacheName ms msResp))
                   name key rates cacheName (ms + 2000) (ms + 2000)
                 = (Some \<lparr> status = 429, retryAfter = (if ms mod 1000 = 0 then 3 else 2) \<rparr>,
                    snd (rateLimit w name key rates cacheName ms msResp))))"
proof (intro conjI impI allI)
  assume "cache_match (caches w (cacheNameOf cacheName)) (key, map printRate rates) ms = Some resp
      \<and> body resp = LIMITED (Num retryAt)"
  then show "rateLimit w name key rates cacheName ms msResp
          = (Some \<lparr> status = 429, retryAfter = retryAt - ceilSeconds msResp \<rparr>, w)"
    by (simp add: rateLimit_hit retryAtNumber_def)
next
  let ?a = "fetch (key, map printRate rates) ms (objects w name)"
  let ?out = "rateLimit w name key rates cacheName ms msResp"
  assume h: "cache_match (caches w (cacheNameOf cacheName)) (key, map printRate rates) ms = None
      \<and> body (fst ?a) = LIMITED (Num retryAt)"
  then have miss: "cache_match (caches w (cacheNameOf cacheName)) (key, map printRate rates) ms = None"
    and lim: "body (fst ?a) = LIMITED (Num retryAt)"
    by simp_all
  show "fst ?out = Some \<lparr> status = 429, retryAfter = retryAt - ceilSeconds msResp \<rparr>"
    using lim by (simp add: rateLimit_miss [OF miss] Let_def retryAtNumber_def)
  show "rateLimit (snd ?out) name key rates cacheName ms2 msResp2
      = (Some \<lparr> status = 429, retryAfter = retryAt - ceilSeconds msResp2 \<rparr>, snd ?out)"
    if "ms2 < ms + (retryAt - floorSeconds ms) * 1000" for ms2 msResp2
    using miss lim that by (rule served_from_cache)
  assume five: "retryAt = floorSeconds ms + 5"
  then have "ms + 2000 < ms + (retryAt - floorSeconds ms) * 1000" by simp
  then have "rateLimit (snd ?out) name key rates cacheName (ms + 2000) (ms + 2000)
      = (Some \<lparr> status = 429, retryAfter = retryAt - ceilSeconds (ms + 2000) \<rparr>, snd ?out)"
    using miss lim by (intro served_from_cache)
  moreover have "retryAt - ceilSeconds (ms + 2000) = (if ms mod 1000 = 0 then 3 else 2)"
    using five by (simp add: ceilSeconds_later)
  ultimately show "rateLimit (snd ?out) name key rates cacheName (ms + 2000) (ms + 2000)
      = (Some \<lparr> status = 429, retryAfter = (if ms mod 1000 = 0 then 3 else 2) \<rparr>, snd ?out)"
    by simp
qed

text \<open>
  One rule \<open>{limit: 1, interval: 5}\<close> and the stored log \<open>[10]\<close>, clock on whole seconds: the
  call at 10 s is limited with \<open>retryAt = 15\<close> and \<open>Retry-After = 5\<close>; the call at 12 s is
  served from the cache with \<open>Retry-After = 3\<close>.
\<close>

theorem retry_after_recomputed_witness:
  "fst (rateLimit \<lparr> objects = (\<lambda>n. Map.empty)(''ip'' := [bucketOf ''k'' \<mapsto> [10]]),
                    caches = (\<lambda>n. Map.empty), fetches = 0 \<rparr>
         ''ip'' ''k'' [\<lparr> climit = NumFinite False ''1'' 1, cinterval = NumFinite False ''5'' 1 \<rparr>]
         None 10000 10000)
     = Some \<lparr> status = 429, retryAfter = 5 \<rparr>
   \<and> rateLimit (snd (rateLimit \<lparr> objects = (\<lambda>n. Map.empty)(''ip'' := [bucketOf ''k'' \<mapsto> [10]]),
                    caches = (\<lambda>n. Map.empty), fetches = 0 \<rparr>
         ''ip'' ''k'' [\<lparr> climit = NumFinite False ''1'' 1, cinterval = NumFinite False ''5'' 1 \<rparr>]
         None 10000 10000))
         ''ip'' ''k'' [\<lparr> climit = NumFinite False ''1'' 1, cinterval = NumFinite False ''5'' 1 \<rparr>]
         None 12000 12000
     = (Some \<lparr> status = 429, retryAfter = 3 \<rparr>,
        snd (rateLimit \<lparr> objects = (\<lambda>n. Map.empty)(''ip'' := [bucketOf ''k'' \<mapsto> [10]]),
                    caches = (\<lambda>n. Map.empty), fetches = 0 \<rparr>
         ''ip'' ''k'' [\<lparr> climit = NumFinite False ''1'' 1, cinterval = NumFinite False ''5'' 1 \<rparr>]
         None 10000 10000))"
proof -
  let ?w = "\<lparr> objects = (\<lambda>n. Map.empty)(''ip'' := [bucketOf ''k'' \<mapsto> [10::int]]),
              caches = (\<lambda>n. Map.empty), fetches = 0 \<rparr>"
  let ?R = "[\<lparr> climit = NumFinite False ''1'' 1, cinterval = NumFinite False ''5'' 1 \<rparr>]"
  have f: "floorSeconds 10000 = 10" and c: "ceilSeconds 10000 = 10"
    using floorSeconds_whole [of 10] ceilSeconds_whole [of 10] by simp_all
  have miss: "cache_match (caches ?w (cacheNameOf None)) (''k'', map printRate ?R) 10000 = None"
    by (simp add: cache_match_def)
  have "fetch (''k'', map printRate ?R) 10000 (objects ?w ''ip'')
      = slidingWindow [\<lparr> limit = 1, interval = 5 \<rparr>] ''k'' (floorSeconds 10000) (objects ?w ''ip'')"
    using wire_1_5 by (rule fetch_integer)
  then have lim: "body (fst (fetch (''k'', map printRate ?R) 10000 (objects ?w ''ip'')))
      = LIMITED (Num 15)"
    by (simp add: f slidingWindow_def loadLog_def Let_def eval_decide)
  have five: "(15::int) = floorSeconds 10000 + 5" by (simp add: f)
  have m: "(10000::int) mod 1000 = 0" by simp
  from retry_after_recomputed [of ?w None "''k''" ?R 10000 undefined 15 "''ip''" 10000]
    miss lim five
  have "fst (rateLimit ?w ''ip'' ''k'' ?R None 10000 10000)
          = Some \<lparr> status = 429, retryAfter = 15 - ceilSeconds 10000 \<rparr>"
    and "rateLimit (snd (rateLimit ?w ''ip'' ''k'' ?R None 10000 10000))
           ''ip'' ''k'' ?R None (10000 + 2000) (10000 + 2000)
         = (Some \<lparr> status = 429, retryAfter = (if (10000::int) mod 1000 = 0 then 3 else 2) \<rparr>,
            snd (rateLimit ?w ''ip'' ''k'' ?R None 10000 10000))"
    by blast+
  then show ?thesis by (simp add: c)
qed

text \<open>
  C7 as stated fails off a whole second. The same rule and stored log with the clock at
  10500 ms: the limiter decides at \<open>now = 10\<close> with \<open>retryAt = 15 = now + 5\<close>, and the caller
  that comes 2 seconds later, at 12500 ms, is served from the cache with
  \<open>Retry-After = 15 - 13 = 2\<close>, not 3.
\<close>

theorem retry_after_off_whole_second:
  "floorSeconds 10500 = 10
   \<and> body (fst (fetch (''k'', [''1:5'']) 10500 [bucketOf ''k'' \<mapsto> [10]])) = LIMITED (Num (10 + 5))
   \<and> map printRate [\<lparr> climit = NumFinite False ''1'' 1, cinterval = NumFinite False ''5'' 1 \<rparr>]
       = [''1:5'']
   \<and> rateLimit (snd (rateLimit \<lparr> objects = (\<lambda>n. Map.empty)(''ip'' := [bucketOf ''k'' \<mapsto> [10]]),
                    caches = (\<lambda>n. Map.empty), fetches = 0 \<rparr>
         ''ip'' ''k'' [\<lparr> climit = NumFinite False ''1'' 1, cinterval = NumFinite False ''5'' 1 \<rparr>]
         None 10500 10500))
         ''ip'' ''k'' [\<lparr> climit = NumFinite False ''1'' 1, cinterval = NumFinite False ''5'' 1 \<rparr>]
         None 12500 12500
     = (Some \<lparr> status = 429, retryAfter = 2 \<rparr>,
        snd (rateLimit \<lparr> objects = (\<lambda>n. Map.empty)(''ip'' := [bucketOf ''k'' \<mapsto> [10]]),
                    caches = (\<lambda>n. Map.empty), fetches = 0 \<rparr>
         ''ip'' ''k'' [\<lparr> climit = NumFinite False ''1'' 1, cinterval = NumFinite False ''5'' 1 \<rparr>]
         None 10500 10500))"
proof -
  let ?w = "\<lparr> objects = (\<lambda>n. Map.empty)(''ip'' := [bucketOf ''k'' \<mapsto> [10::int]]),
              caches = (\<lambda>n. Map.empty), fetches = 0 \<rparr>"
  let ?R = "[\<lparr> climit = NumFinite False ''1'' 1, cinterval = NumFinite False ''5'' 1 \<rparr>]"
  have f: "floorSeconds 10500 = 10" by (simp add: floorSeconds_def)
  have c: "ceilSeconds 12500 = 13" by (simp add: ceilSeconds_def)
  have p: "map printRate ?R = [''1:5'']" by (simp add: printRate_def finiteToString_def)
  have miss: "cache_match (caches ?w (cacheNameOf None)) (''k'', map printRate ?R) 10500 = None"
    by (simp add: cache_match_def)
  have "fetch (''k'', map printRate ?R) 10500 (objects ?w ''ip'')
      = slidingWindow [\<lparr> limit = 1, interval = 5 \<rparr>] ''k'' (floorSeconds 10500) (objects ?w ''ip'')"
    using wire_1_5 by (rule fetch_integer)
  then have lim: "body (fst (fetch (''k'', map printRate ?R) 10500 (objects ?w ''ip'')))
      = LIMITED (Num 15)"
    by (simp add: f slidingWindow_def loadLog_def Let_def eval_decide)
  have fr: "(12500::int) < 10500 + (15 - floorSeconds 10500) * 1000" by (simp add: f)
  have "rateLimit (snd (rateLimit ?w ''ip'' ''k'' ?R None 10500 10500)) ''ip'' ''k'' ?R None 12500 12500
      = (Some \<lparr> status = 429, retryAfter = 15 - ceilSeconds 12500 \<rparr>,
         snd (rateLimit ?w ''ip'' ''k'' ?R None 10500 10500))"
    using miss lim fr by (rule served_from_cache)
  then have second: "rateLimit (snd (rateLimit ?w ''ip'' ''k'' ?R None 10500 10500))
        ''ip'' ''k'' ?R None 12500 12500
      = (Some \<lparr> status = 429, retryAfter = 2 \<rparr>,
         snd (rateLimit ?w ''ip'' ''k'' ?R None 10500 10500))"
    by (simp add: c)
  have "body (fst (fetch (''k'', [''1:5'']) 10500 [bucketOf ''k'' \<mapsto> [10]])) = LIMITED (Num (10 + 5))"
    using lim [unfolded p] by simp
  then show ?thesis using f p second by blast
qed

section \<open>Rules are not validated\<close>

text \<open>
  C8, as amended. The coordinator does not inspect the rules. On a cache miss every rules
  list, also one with a rule whose limit or interval is not positive, is sent to the
  limiter as the texts \<open>limit:interval\<close>; the limiter decides on the rules that \<open>parseInt\<close>
  reads from these texts and writes its storage, and the coordinator allows the call
  exactly when that decision allows it. In the limiter a rule that is read with a limit that
  is not positive is violated on every call.
\<close>

theorem rules_forwarded_unvalidated:
  "(cache_match (caches w (cacheNameOf cacheName)) (key, map printRate rates) ms = None \<longrightarrow>
      fetches (snd (rateLimit w name key rates cacheName ms msResp)) = fetches w + 1
      \<and> objects (snd (rateLimit w name key rates cacheName ms msResp)) name
          = snd (slidingWindow_parsed (map parseRate (map printRate rates)) key
                   (floorSeconds ms) (objects w name))
      \<and> (fst (rateLimit w name key rates cacheName ms msResp) = None
          \<longleftrightarrow> fst (decide_parsed (map parseRate (map printRate rates))
                     (loadLog (objects w name) key) (floorSeconds ms)) = None))
   \<and> ((\<exists>rate\<in>set read. \<exists>l. plimit rate = Num l \<and> l \<le> 0)
        \<longrightarrow> fst (decide_parsed read stored now) \<noteq> None)"
proof (intro conjI impI)
  let ?a = "fetch (key, map printRate rates) ms (objects w name)"
  let ?out = "rateLimit w name key rates cacheName ms msResp"
  assume miss: "cache_match (caches w (cacheNameOf cacheName)) (key, map printRate rates) ms = None"
  show "fetches (snd ?out) = fetches w + 1"
    by (simp add: rateLimit_miss [OF miss] Let_def split: Data.splits)
  show "objects (snd ?out) name
      = snd (slidingWindow_parsed (map parseRate (map printRate rates)) key
               (floorSeconds ms) (objects w name))"
    by (simp add: rateLimit_miss [OF miss] Let_def fetch_def split: Data.splits)
  have "fst ?out = None \<longleftrightarrow> body (fst ?a) = OK"
    by (cases "body (fst ?a)") (simp_all add: rateLimit_miss [OF miss] Let_def json_LIMITED)
  then show "fst ?out = None
      \<longleftrightarrow> fst (decide_parsed (map parseRate (map printRate rates))
             (loadLog (objects w name) key) (floorSeconds ms)) = None"
    by (simp add: fetch_body)
next
  assume "\<exists>rate\<in>set read. \<exists>l. plimit rate = Num l \<and> l \<le> 0"
  then obtain rate l where "rate \<in> set read" and "plimit rate = Num l" and "l \<le> 0" by blast
  then have "retryLoop_parsed read (workingLog_parsed read stored now) now \<noteq> None"
    unfolding retryLoop_parsed_def by (rule foldl_retryStep_parsed_nonpositive)
  then show "fst (decide_parsed read stored now) \<noteq> None"
    by (simp add: decide_parsed_def Let_def)
qed

text \<open>
  The rule \<open>{limit: 0, interval: 10}\<close> on a fresh world: it is sent as \<open>0:10\<close>, the limiter is
  called and rejects.
\<close>

theorem rules_forwarded_unvalidated_witness:
  "cache_match (caches \<lparr> objects = (\<lambda>n. Map.empty), caches = (\<lambda>n. Map.empty), fetches = 0 \<rparr>
       (cacheNameOf None))
       (''k'', map printRate [\<lparr> climit = NumZero, cinterval = NumFinite False ''1'' 2 \<rparr>]) 10000 = None
   \<and> map parseRate (map printRate [\<lparr> climit = NumZero, cinterval = NumFinite False ''1'' 2 \<rparr>])
       = [\<lparr> plimit = Num 0, pinterval = Num 10 \<rparr>]
   \<and> fetches (snd (rateLimit \<lparr> objects = (\<lambda>n. Map.empty), caches = (\<lambda>n. Map.empty), fetches = 0 \<rparr>
         ''ip'' ''k'' [\<lparr> climit = NumZero, cinterval = NumFinite False ''1'' 2 \<rparr>] None 10000 10000)) = 1
   \<and> fst (decide_parsed [\<lparr> plimit = Num 0, pinterval = Num 10 \<rparr>] [] 10) \<noteq> None
   \<and> fst (rateLimit \<lparr> objects = (\<lambda>n. Map.empty), caches = (\<lambda>n. Map.empty), fetches = 0 \<rparr>
         ''ip'' ''k'' [\<lparr> climit = NumZero, cinterval = NumFinite False ''1'' 2 \<rparr>] None 10000 10000)
       \<noteq> None"
proof -
  let ?w = "\<lparr> objects = (\<lambda>n. Map.empty :: Storage), caches = (\<lambda>n. Map.empty :: Cache), fetches = 0 \<rparr>"
  let ?R = "[\<lparr> climit = NumZero, cinterval = NumFinite False ''1'' 2 \<rparr>]"
  let ?P = "[\<lparr> plimit = Num 0, pinterval = Num 10 \<rparr>]"
  have f: "floorSeconds 10000 = 10" using floorSeconds_whole [of 10] by simp
  have miss: "cache_match (caches ?w (cacheNameOf None)) (''k'', map printRate ?R) 10000 = None"
    by (simp add: cache_match_def)
  have read: "map parseRate (map printRate ?R) = ?P"
    using wire_0_10 by (simp add: parsedOf_def)
  have mal: "\<exists>rate\<in>set ?P. \<exists>l. plimit rate = Num l \<and> l \<le> 0" by simp
  have l: "loadLog (objects ?w ''ip'') ''k'' = []" by (simp add: loadLog_def)
  from rules_forwarded_unvalidated [of ?w None "''k''" ?R 10000 "''ip''" 10000 ?P "[]" 10] miss mal
  have a: "fetches (snd (rateLimit ?w ''ip'' ''k'' ?R None 10000 10000)) = fetches ?w + 1"
    and b: "fst (rateLimit ?w ''ip'' ''k'' ?R None 10000 10000) = None
          \<longleftrightarrow> fst (decide_parsed (map parseRate (map printRate ?R))
                (loadLog (objects ?w ''ip'') ''k'') (floorSeconds 10000)) = None"
    and c: "fst (decide_parsed ?P [] 10) \<noteq> None"
    by blast+
  have "fst (rateLimit ?w ''ip'' ''k'' ?R None 10000 10000) \<noteq> None"
    using b c unfolding read l f by simp
  moreover have "fetches (snd (rateLimit ?w ''ip'' ''k'' ?R None 10000 10000)) = 1"
    using a by simp
  ultimately show ?thesis using miss read c by blast
qed

text \<open>
  C8 as stated fails: with the rule \<open>{limit: 1, interval: 0}\<close> on a fresh world the call is
  not rejected. The rule is sent as \<open>1:0\<close>, the limiter is called once and records the
  request, and the coordinator returns \<open>null\<close>.
\<close>

theorem malformed_rule_reaches_limiter:
  "map printRate [\<lparr> climit = NumFinite False ''1'' 1, cinterval = NumZero \<rparr>] = [''1:0'']
   \<and> fst (rateLimit \<lparr> objects = (\<lambda>n. Map.empty), caches = (\<lambda>n. Map.empty), fetches = 0 \<rparr>
         ''ip'' ''k'' [\<lparr> climit = NumFinite False ''1'' 1, cinterval = NumZero \<rparr>] None 10000 10000)
       = None
   \<and> fetches (snd (rateLimit \<lparr> objects = (\<lambda>n. Map.empty), caches = (\<lambda>n. Map.empty), fetches = 0 \<rparr>
         ''ip'' ''k'' [\<lparr> climit = NumFinite False ''1'' 1, cinterval = NumZero \<rparr>] None 10000 10000))
       = 1
   \<and> objects (snd (rateLimit \<lparr> objects = (\<lambda>n. Map.empty), caches = (\<lambda>n. Map.empty), fetches = 0 \<rparr>
         ''ip'' ''k'' [\<lparr> climit = NumFinite False ''1'' 1, cinterval = NumZero \<rparr>] None 10000 10000))
         ''ip'' (bucketOf ''k'')
       = Some [10]"
proof -
  let ?w = "\<lparr> objects = (\<lambda>n. Map.empty :: Storage), caches = (\<lambda>n. Map.empty :: Cache), fetches = 0 \<rparr>"
  let ?R = "[\<lparr> climit = NumFinite False ''1'' 1, cinterval = NumZero \<rparr>]"
  have f: "floorSeconds 10000 = 10" using floorSeconds_whole [of 10] by simp
  have p: "map printRate ?R = [''1:0'']" by (simp add: printRate_def finiteToString_def)
  have miss: "cache_match (caches ?w (cacheNameOf None)) (''k'', map printRate ?R) 10000 = None"
    by (simp add: cache_match_def)
  have a: "fetch (''k'', map printRate ?R) 10000 (objects ?w ''ip'')
      = slidingWindow [\<lparr> limit = 1, interval = 0 \<rparr>] ''k'' 10 (objects ?w ''ip'')"
    using fetch_integer [OF wire_1_0, of "''k''" 10000 "objects ?w ''ip''"] by (simp add: f)
  have s: "slidingWindow [\<lparr> limit = 1, interval = 0 \<rparr>] ''k'' 10 (objects ?w ''ip'')
      = (\<lparr> body = OK, maxAge = None \<rparr>, [bucketOf ''k'' \<mapsto> [10]])"
    by (simp add: slidingWindow_def loadLog_def Let_def decide_def eval_decide)
  have "rateLimit ?w ''ip'' ''k'' ?R None 10000 10000
      = (None, ?w \<lparr> objects := (objects ?w)(''ip'' := [bucketOf ''k'' \<mapsto> [10]]),
                    fetches := fetches ?w + 1 \<rparr>)"
    unfolding rateLimit_miss [OF miss] Let_def a s by simp
  then show ?thesis using p by simp
qed

section \<open>A log that has aged out\<close>

text \<open>
  C9. If every stored timestamp has \<open>t + biggestInterval < now\<close>, the call decides and
  writes exactly what it does for a key with nothing stored; and if every rule has a limit
  of at least 1, the answer is OK and the written log is \<open>[now]\<close>.
\<close>

theorem aged_out_log_is_fresh:
  assumes "\<forall>t\<in>set (loadLog storage key).
             js_less (js_add (Num t) (biggestInterval rates)) (Num now)"
  shows "decide rates (loadLog storage key) now = decide rates [] now
    \<and> slidingWindow rates key now storage
        = slidingWindow rates key now (storage(bucketOf key := None))
    \<and> ((\<forall>rate\<in>set rates. 1 \<le> limit rate) \<longrightarrow>
          decide rates (loadLog storage key) now = (None, [now])
          \<and> body (fst (slidingWindow rates key now storage)) = OK
          \<and> snd (slidingWindow rates key now storage) (bucketOf key) = Some [now])"
proof -
  have w: "workingLog rates (loadLog storage key) now = []"
    using assms by (rule aged_out_workingLog)
  have w0: "workingLog rates [] now = []" by (simp add: workingLog_takeWhile)
  have d: "decide rates (loadLog storage key) now = decide rates [] now"
    by (rule decide_workingLog) (simp add: w w0)
  have l0: "loadLog (storage(bucketOf key := None)) key = []" by (simp add: loadLog_def)
  have s: "slidingWindow rates key now storage
        = slidingWindow rates key now (storage(bucketOf key := None))"
    by (simp add: slidingWindow_def l0 d)
  have f: "decide rates (loadLog storage key) now = (None, [now])
          \<and> body (fst (slidingWindow rates key now storage)) = OK
          \<and> snd (slidingWindow rates key now storage) (bucketOf key) = Some [now]"
    if "\<forall>rate\<in>set rates. 1 \<le> limit rate"
  proof -
    have "decide rates (loadLog storage key) now = (None, [now])"
      using retryLoop_empty [OF that, of now] by (simp add: decide_def w)
    then show ?thesis by (simp add: slidingWindow_body slidingWindow_storage)
  qed
  show ?thesis using d s f by blast
qed

text \<open>The stored log \<open>[11, 1]\<close> under one rule of interval 10, at time 22.\<close>

theorem aged_out_log_is_fresh_witness:
  "js_less (js_add (Num 11) (biggestInterval [\<lparr>limit = 1, interval = 10\<rparr>])) (Num 22)
   \<and> js_less (js_add (Num 1) (biggestInterval [\<lparr>limit = 1, interval = 10\<rparr>])) (Num 22)
   \<and> decide [\<lparr>limit = 1, interval = 10\<rparr>] [11, 1] 22 = decide [\<lparr>limit = 1, interval = 10\<rparr>] [] 22
   \<and> decide [\<lparr>limit = 1, interval = 10\<rparr>] [11, 1] 22 = (None, [22])
   \<and> snd (slidingWindow [\<lparr>limit = 1, interval = 10\<rparr>] ''k'' 22 [bucketOf ''k'' \<mapsto> [11, 1]])
        (bucketOf ''k'') = Some [22]"
proof -
  let ?R = "[\<lparr>limit = 1, interval = 10\<rparr>]"
  let ?S = "[bucketOf ''k'' \<mapsto> [11, 1::int]]"
  have l: "loadLog ?S ''k'' = [11, 1]" by (simp add: loadLog_def)
  have h: "\<forall>t\<in>set (loadLog ?S ''k''). js_less (js_add (Num t) (biggestInterval ?R)) (Num 22)"
    by (simp add: l biggestInterval_Max)
  have r: "\<forall>rate\<in>set ?R. 1 \<le> limit rate" by simp
  from aged_out_log_is_fresh [OF h] r
  have "decide ?R (loadLog ?S ''k'') 22 = decide ?R [] 22
        \<and> decide ?R (loadLog ?S ''k'') 22 = (None, [22])
        \<and> snd (slidingWindow ?R ''k'' 22 ?S) (bucketOf ''k'') = Some [22]"
    by blast
  then have a: "decide ?R [11, 1] 22 = decide ?R [] 22"
    and b: "decide ?R [11, 1] 22 = (None, [22])"
    and c: "snd (slidingWindow ?R ''k'' 22 ?S) (bucketOf ''k'') = Some [22]"
    unfolding l by blast+
  have "js_less (js_add (Num 11) (biggestInterval ?R)) (Num 22)"
    and "js_less (js_add (Num 1) (biggestInterval ?R)) (Num 22)"
    using h unfolding l by simp_all
  then show ?thesis using a b c by blast
qed

section \<open>The boundary of a violated rule\<close>

text \<open>
  C10. For a rule with a limit of at least 1, whenever the scan counts at least \<open>limit\<close>
  entries its \<open>last\<close> is defined, so \<open>rate.interval + last\<close> is a number; and with every
  limit at least 1 the loop never ends with \<open>retryAt = NaN\<close>.
\<close>

theorem violated_rule_has_boundary:
  "(1 \<le> limit rate \<and> limit rate \<le> int (count (countUntil requests (inRate rate now)))
      \<longrightarrow> last_item (countUntil requests (inRate rate now)) \<noteq> None
          \<and> lastNum (last_item (countUntil requests (inRate rate now))) \<noteq> NaN)
   \<and> ((\<forall>r\<in>set rates. 1 \<le> limit r) \<longrightarrow> retryLoop rates requests now \<noteq> Some NaN)"
proof (intro conjI impI)
  assume h: "1 \<le> limit rate \<and> limit rate \<le> int (count (countUntil requests (inRate rate now)))"
  then have "takeWhile (inRate rate now) requests \<noteq> []"
    by (auto simp: countUntil_count)
  then show "last_item (countUntil requests (inRate rate now)) \<noteq> None"
    and "lastNum (last_item (countUntil requests (inRate rate now))) \<noteq> NaN"
    by (simp_all add: countUntil_last lastNum_def)
next
  assume "\<forall>r\<in>set rates. 1 \<le> limit r"
  then have "retryLoop rates requests now = None \<or> (\<exists>n. retryLoop rates requests now = Some (Num n))"
    unfolding retryLoop_def by (intro foldl_retryStep_numeric) simp_all
  then show "retryLoop rates requests now \<noteq> Some NaN" by auto
qed

text \<open>The rule \<open>{limit: 1, interval: 10}\<close> on the working log \<open>[11, 1]\<close> at time 12.\<close>

theorem violated_rule_has_boundary_witness:
  "limit \<lparr>limit = 1, interval = 10\<rparr> \<le> int (count (countUntil [11, 1] (inRate \<lparr>limit = 1, interval = 10\<rparr> 12)))
   \<and> last_item (countUntil [11, 1] (inRate \<lparr>limit = 1, interval = 10\<rparr> 12)) = Some 11
   \<and> retryLoop [\<lparr>limit = 1, interval = 10\<rparr>] [11, 1] 12 = Some (Num 21)"
  using violated_rule_has_boundary [of "\<lparr>limit = 1, interval = 10\<rparr>" "[11, 1]" 12 "[\<lparr>limit = 1, interval = 10\<rparr>]"]
  by (simp add: eval_decide)

end
